theory Spec2Isabelle
  imports Complex_Main "HOL-Library.Word"
begin

unbundle bit_operations_syntax

section \<open>Data model (types.ts)\<close>

text \<open>
  JavaScript strings are sequences of UTF-16 code units; a code unit is a \<open>nat\<close> here, so
  that every character the regular expressions of the source can meet is representable.
  \<open>js\<close> turns an Isabelle string literal into such a sequence.

  JavaScript numbers that can be fractional (milliseconds, byte estimates, delays) are exact
  rationals; counters, indices and lengths are naturals; \<open>Date.now()\<close> is an integer passed
  in by the caller of the model. \<open>NaN\<close> and the infinities are not values of the model: where
  the source can divide by zero the model says what the source does there.
\<close>

type_synonym jsstring = "nat list"

definition js :: "string \<Rightarrow> jsstring" where
  "js s = map of_char s"

text \<open>\<open>AudioDataType = string | Uint8Array | ArrayBuffer\<close>.\<close>

datatype AudioDataType =
    StringData jsstring
  | Uint8ArrayData "8 word list"
  | ArrayBufferData "8 word list"

text \<open>\<open>IAudioPlayPayload\<close>; the optional flags are options.\<close>

record IAudioPlayPayload =
  audioData :: AudioDataType
  isFirst :: "bool option"
  isFinal :: "bool option"

record IAudioFrame =
  sequenceNumber :: nat
  data :: IAudioPlayPayload
  duration :: rat
  timestamp :: int

text \<open>A frame with a given sequence number and duration, for the examples.\<close>

definition example_frame :: "nat \<Rightarrow> rat \<Rightarrow> IAudioFrame" where
  "example_frame n d =
     \<lparr>sequenceNumber = n,
      data = \<lparr>audioData = StringData [], isFirst = Some False, isFinal = Some False\<rparr>,
      duration = d, timestamp = 0\<rparr>"

section \<open>RingBuffer\<close>

text \<open>
  The fields \<open>_buffer\<close>, \<open>_capacity\<close>, \<open>_head\<close>, \<open>_tail\<close>, \<open>_size\<close> of the class. A slot
  holds a frame or \<open>null\<close>. The model is meant for a capacity of at least one: with
  capacity 0 the source computes \<open>x % 0\<close>, which is \<open>NaN\<close>. Under the invariant
  \<open>rb_inv\<close> below every index the operations use is inside the array.
\<close>

record RingBuffer =
  rb_buffer :: "IAudioFrame option list"
  rb_capacity :: nat
  rb_head :: nat
  rb_tail :: nat
  rb_size :: nat

definition RingBuffer_new :: "nat \<Rightarrow> RingBuffer" where
  "RingBuffer_new capacity =
     \<lparr>rb_buffer = replicate capacity None, rb_capacity = capacity,
      rb_head = 0, rb_tail = 0, rb_size = 0\<rparr>"

text \<open>\<open>push\<close>: on a full buffer the tail moves forward first; the result is always \<open>true\<close>.\<close>

definition push :: "RingBuffer \<Rightarrow> IAudioFrame \<Rightarrow> bool \<times> RingBuffer" where
  "push s frame =
     (let s1 = (if rb_size s \<ge> rb_capacity s
                then s\<lparr>rb_tail := (rb_tail s + 1) mod rb_capacity s,
                       rb_size := rb_size s - 1\<rparr>
                else s);
          s2 = s1\<lparr>rb_buffer := (rb_buffer s1)[rb_head s1 := Some frame]\<rparr>;
          s3 = s2\<lparr>rb_head := (rb_head s2 + 1) mod rb_capacity s2\<rparr>;
          s4 = s3\<lparr>rb_size := rb_size s3 + 1\<rparr>
      in (True, s4))"

text \<open>\<open>shift\<close>: the oldest frame or \<open>null\<close>.\<close>

definition shift :: "RingBuffer \<Rightarrow> IAudioFrame option \<times> RingBuffer" where
  "shift s =
     (if rb_size s = 0 then (None, s)
      else
        let frame = rb_buffer s ! rb_tail s;
            s1 = s\<lparr>rb_buffer := (rb_buffer s)[rb_tail s := None]\<rparr>;
            s2 = s1\<lparr>rb_tail := (rb_tail s1 + 1) mod rb_capacity s1\<rparr>;
            s3 = s2\<lparr>rb_size := rb_size s2 - 1\<rparr>
        in (frame, s3))"

definition peek :: "RingBuffer \<Rightarrow> IAudioFrame option" where
  "peek s = (if rb_size s = 0 then None else rb_buffer s ! rb_tail s)"

text \<open>\<open>unshift\<close>: on a full buffer the newest frame is dropped first.\<close>

definition unshift :: "RingBuffer \<Rightarrow> IAudioFrame \<Rightarrow> RingBuffer" where
  "unshift s frame =
     (let s1 = (if rb_size s \<ge> rb_capacity s
                then
                  let h = nat ((int (rb_head s) - 1 + int (rb_capacity s)) mod int (rb_capacity s))
                  in s\<lparr>rb_head := h, rb_buffer := (rb_buffer s)[h := None],
                        rb_size := rb_size s - 1\<rparr>
                else s);
          t = nat ((int (rb_tail s1) - 1 + int (rb_capacity s1)) mod int (rb_capacity s1));
          s2 = s1\<lparr>rb_tail := t\<rparr>;
          s3 = s2\<lparr>rb_buffer := (rb_buffer s2)[t := Some frame]\<rparr>
      in s3\<lparr>rb_size := rb_size s3 + 1\<rparr>)"

definition clear :: "RingBuffer \<Rightarrow> RingBuffer" where
  "clear s =
     s\<lparr>rb_buffer := map (\<lambda>_. None) (rb_buffer s), rb_head := 0, rb_tail := 0, rb_size := 0\<rparr>"

definition isEmpty :: "RingBuffer \<Rightarrow> bool" where
  "isEmpty s = (rb_size s = 0)"

definition isFull :: "RingBuffer \<Rightarrow> bool" where
  "isFull s = (rb_size s \<ge> rb_capacity s)"

text \<open>
  The loop of \<open>getTotalDurationMs\<close>: \<open>n\<close> is the number of iterations still to run
  (\<open>_size - count\<close>); a \<open>null\<close> slot adds nothing.
\<close>

fun total_loop :: "RingBuffer \<Rightarrow> nat \<Rightarrow> nat \<Rightarrow> rat \<Rightarrow> rat" where
  "total_loop s index 0 totalMs = totalMs"
| "total_loop s index (Suc n) totalMs =
     total_loop s ((index + 1) mod rb_capacity s) n
       (case rb_buffer s ! index of
          Some frame \<Rightarrow> totalMs + duration frame
        | None \<Rightarrow> totalMs)"

definition getTotalDurationMs :: "RingBuffer \<Rightarrow> rat" where
  "getTotalDurationMs s =
     (if rb_size s = 0 then 0 else total_loop s (rb_tail s) (rb_size s) 0)"

text \<open>The loop of \<open>dropOldest\<close>, run \<open>toDrop\<close> times.\<close>

fun drop_loop :: "RingBuffer \<Rightarrow> nat \<Rightarrow> RingBuffer" where
  "drop_loop s 0 = s"
| "drop_loop s (Suc n) =
     drop_loop (s\<lparr>rb_buffer := (rb_buffer s)[rb_tail s := None],
                  rb_tail := (rb_tail s + 1) mod rb_capacity s\<rparr>) n"

text \<open>
  \<open>dropOldest count\<close>: \<open>count\<close> is a number of frames, a natural number here (the source does
  not check it for a sign or a fraction).
\<close>

definition dropOldest :: "RingBuffer \<Rightarrow> nat \<Rightarrow> nat \<times> RingBuffer" where
  "dropOldest s count =
     (let toDrop = min count (rb_size s);
          s1 = drop_loop s toDrop
      in (toDrop, s1\<lparr>rb_size := rb_size s1 - toDrop\<rparr>))"

text \<open>
  The loop of \<open>forEach\<close>, collecting the frames the callback is called with: the frames of the
  window of \<open>_size\<close> slots starting at \<open>_tail\<close>, oldest first.
\<close>

fun forEach_loop :: "RingBuffer \<Rightarrow> nat \<Rightarrow> nat \<Rightarrow> IAudioFrame list" where
  "forEach_loop s index 0 = []"
| "forEach_loop s index (Suc n) =
     (case rb_buffer s ! index of
        Some frame \<Rightarrow> [frame]
      | None \<Rightarrow> []) @ forEach_loop s ((index + 1) mod rb_capacity s) n"

definition forEach_frames :: "RingBuffer \<Rightarrow> IAudioFrame list" where
  "forEach_frames s = forEach_loop s (rb_tail s) (rb_size s)"

text \<open>A sequence of calls on one buffer.\<close>

datatype rb_op =
    Push IAudioFrame
  | Shift
  | DropOldest nat
  | Unshift IAudioFrame
  | Clear

fun rb_step :: "RingBuffer \<Rightarrow> rb_op \<Rightarrow> RingBuffer" where
  "rb_step s (Push f) = snd (push s f)"
| "rb_step s Shift = snd (shift s)"
| "rb_step s (DropOldest n) = snd (dropOldest s n)"
| "rb_step s (Unshift f) = unshift s f"
| "rb_step s Clear = clear s"

definition rb_run :: "RingBuffer \<Rightarrow> rb_op list \<Rightarrow> RingBuffer" where
  "rb_run s ops = foldl rb_step s ops"

text \<open>
  The frame store as the specification describes it: a queue of at most \<open>capacity\<close> frames,
  oldest first. \<open>push\<close> on a full store evicts the oldest frame, \<open>pushFront\<close> on a full
  store evicts the newest, \<open>pop\<close> removes the oldest, \<open>dropOldest n\<close> removes up to \<open>n\<close>
  oldest frames.
\<close>

fun store_step :: "nat \<Rightarrow> IAudioFrame list \<Rightarrow> rb_op \<Rightarrow> IAudioFrame list" where
  "store_step cap q (Push f) = (if length q \<ge> cap then tl q else q) @ [f]"
| "store_step cap q Shift = tl q"
| "store_step cap q (DropOldest n) = drop n q"
| "store_step cap q (Unshift f) = f # (if length q \<ge> cap then butlast q else q)"
| "store_step cap q Clear = []"

definition store_run :: "nat \<Rightarrow> rb_op list \<Rightarrow> IAudioFrame list" where
  "store_run cap ops = foldl (store_step cap) [] ops"

text \<open>
  The representation invariant of a buffer built by the constructor and its methods.
  \<open>rb_slot s k\<close> is the slot \<open>k\<close> places after the read edge: the first \<open>_size\<close> of them
  hold frames, the others are \<open>null\<close>.
\<close>

definition rb_slot :: "RingBuffer \<Rightarrow> nat \<Rightarrow> IAudioFrame option" where
  "rb_slot s k = rb_buffer s ! ((rb_tail s + k) mod rb_capacity s)"

definition rb_inv :: "RingBuffer \<Rightarrow> bool" where
  "rb_inv s \<longleftrightarrow>
     0 < rb_capacity s \<and> length (rb_buffer s) = rb_capacity s \<and>
     rb_head s < rb_capacity s \<and> rb_tail s < rb_capacity s \<and>
     rb_size s \<le> rb_capacity s \<and>
     rb_head s = (rb_tail s + rb_size s) mod rb_capacity s \<and>
     (\<forall>k < rb_capacity s. rb_slot s k = None \<longleftrightarrow> rb_size s \<le> k)"

text \<open>The durations of the occupied (non-null) slots of the array, in array order.\<close>

definition occupied_durations :: "RingBuffer \<Rightarrow> rat list" where
  "occupied_durations s = map duration (List.map_filter id (rb_buffer s))"

text \<open>
  \<open>rb_window s q\<close>: read from the tail, the slots of the array are the frames of \<open>q\<close>
  followed by \<open>null\<close>s. \<open>rb_holds s q\<close>: moreover \<open>_size\<close> and \<open>_head\<close> agree with it.
\<close>

definition rb_window :: "RingBuffer \<Rightarrow> IAudioFrame list \<Rightarrow> bool" where
  "rb_window s q \<longleftrightarrow>
     0 < rb_capacity s \<and> length (rb_buffer s) = rb_capacity s \<and>
     rb_tail s < rb_capacity s \<and> length q \<le> rb_capacity s \<and>
     (\<forall>k < rb_capacity s. rb_slot s k = (if k < length q then Some (q ! k) else None))"

definition rb_holds :: "RingBuffer \<Rightarrow> IAudioFrame list \<Rightarrow> bool" where
  "rb_holds s q \<longleftrightarrow>
     rb_window s q \<and> rb_size s = length q \<and>
     rb_head s = (rb_tail s + rb_size s) mod rb_capacity s"


section \<open>FrameProcessor\<close>

text \<open>
  The fields \<open>_sequenceNumber\<close>, \<open>_frameIntervalMs\<close>, \<open>_sampleRate\<close>, \<open>_bytesPerSample\<close>.
  The two divisors are meant to be non-zero (the callers pass a sample rate and 2 or 4): with
  a zero divisor and a zero byte estimate the source computes \<open>NaN\<close>.
\<close>

record FrameProcessor =
  fp_sequenceNumber :: nat
  fp_frameIntervalMs :: rat
  fp_sampleRate :: rat
  fp_bytesPerSample :: rat

definition FrameProcessor_new :: "rat \<Rightarrow> rat \<Rightarrow> rat \<Rightarrow> FrameProcessor" where
  "FrameProcessor_new frameIntervalMs sampleRate bytesPerSample =
     \<lparr>fp_sequenceNumber = 0, fp_frameIntervalMs = frameIntervalMs,
      fp_sampleRate = sampleRate, fp_bytesPerSample = bytesPerSample\<rparr>"

definition setBytesPerSample :: "FrameProcessor \<Rightarrow> rat \<Rightarrow> FrameProcessor" where
  "setBytesPerSample fp bytes = fp\<lparr>fp_bytesPerSample := bytes\<rparr>"

definition maxReasonableChunkSizeBytes :: rat where
  "maxReasonableChunkSizeBytes = 64 * 1024"

text \<open>The character class \<open>[A-Za-z0-9+/]\<close>, by code unit.\<close>

definition is_base64_char :: "nat \<Rightarrow> bool" where
  "is_base64_char c \<longleftrightarrow>
     (65 \<le> c \<and> c \<le> 90) \<or> (97 \<le> c \<and> c \<le> 122) \<or> (48 \<le> c \<and> c \<le> 57) \<or> c = 43 \<or> c = 47"

text \<open>The code unit of \<open>=\<close>.\<close>

definition pad_char :: nat where
  "pad_char = 61"

text \<open>
  The class \<open>\s\<close> of ECMAScript: tab, line feed, vertical tab, form feed, carriage return,
  space, no-break space, the Unicode space separators, the line and paragraph separators and
  the byte order mark.
\<close>

definition is_whitespace :: "nat \<Rightarrow> bool" where
  "is_whitespace c \<longleftrightarrow>
     (9 \<le> c \<and> c \<le> 13) \<or> c = 32 \<or> c = 160 \<or> c = 5760 \<or> (8192 \<le> c \<and> c \<le> 8202) \<or>
     c = 8232 \<or> c = 8233 \<or> c = 8239 \<or> c = 8287 \<or> c = 12288 \<or> c = 65279"

text \<open>
  \<open>_validBase64Regex.test\<close> for \<open>/^[A-Za-z0-9+/]*={0,2}$/\<close>: after the longest prefix of
  class characters there is nothing, one \<open>=\<close> or two.
\<close>

definition validBase64Regex_test :: "jsstring \<Rightarrow> bool" where
  "validBase64Regex_test s \<longleftrightarrow>
     dropWhile is_base64_char s \<in> {[], [pad_char], [pad_char, pad_char]}"

text \<open>\<open>(data.match(/=/g) || []).length\<close>.\<close>

definition paddingCount :: "jsstring \<Rightarrow> nat" where
  "paddingCount s = length (filter (\<lambda>c. c = pad_char) s)"

text \<open>The estimate \<open>(length * 3) / 4 - paddingCount\<close> that the source computes in two places.\<close>

definition estimatedBytes :: "jsstring \<Rightarrow> rat" where
  "estimatedBytes s = (of_nat (length s) * 3) / 4 - of_nat (paddingCount s)"

definition getByteSize :: "AudioDataType \<Rightarrow> rat" where
  "getByteSize d =
     (case d of
        StringData s \<Rightarrow> estimatedBytes s
      | ArrayBufferData bytes \<Rightarrow> of_nat (length bytes)
      | Uint8ArrayData bytes \<Rightarrow> of_nat (length bytes))"

text \<open>
  \<open>_isValidPayload\<close>. The payload is an object with \<open>audioData\<close> of one of the three
  shapes; \<open>!payload.audioData\<close> is true exactly for the empty string.
\<close>

definition isValidPayload :: "IAudioPlayPayload \<Rightarrow> bool" where
  "isValidPayload payload =
     (if audioData payload = StringData [] then False
      else
        let byteSize = getByteSize (audioData payload)
        in if byteSize = 0 then False
           else if byteSize > maxReasonableChunkSizeBytes then False
           else True)"

datatype fp_error = EmptyBase64Data | InvalidBase64Format

text \<open>\<open>_sanitizeBase64\<close>; a \<open>throw\<close> is \<open>Inl\<close>.\<close>

definition sanitizeBase64 :: "jsstring \<Rightarrow> fp_error + jsstring" where
  "sanitizeBase64 base64Data =
     (if base64Data = [] then Inl EmptyBase64Data
      else
        let cleaned = filter (\<lambda>c. \<not> is_whitespace c) base64Data
        in if \<not> validBase64Regex_test cleaned then Inl InvalidBase64Format
           else
             let remainder = length cleaned mod 4
             in if remainder = 2 then Inr (cleaned @ js ''=='')
                else if remainder = 3 then Inr (cleaned @ js ''='')
                else Inr cleaned)"

definition base64_chars :: jsstring where
  "base64_chars = js ''ABCDEFGHIJKLMNOPQRSTUVWXYZabcdefghijklmnopqrstuvwxyz0123456789+/''"

text \<open>\<open>String.prototype.charAt\<close>: the empty string outside the string.\<close>

definition charAt :: "jsstring \<Rightarrow> nat \<Rightarrow> jsstring" where
  "charAt s i = (if i < length s then [s ! i] else [])"

text \<open>\<open>(a << 16) | (b << 8) | c\<close> on 32-bit integers; the value is below \<open>2^24\<close>.\<close>

definition bitmap_of :: "8 word \<Rightarrow> 8 word \<Rightarrow> 8 word \<Rightarrow> 32 word" where
  "bitmap_of a b c = push_bit 16 (ucast a) OR push_bit 8 (ucast b) OR ucast c"

text \<open>\<open>chars.charAt((bitmap >> n) & 63)\<close>.\<close>

definition sextet :: "32 word \<Rightarrow> nat \<Rightarrow> jsstring" where
  "sextet bitmap n = charAt base64_chars (unat (drop_bit n bitmap AND 63))"

text \<open>
  \<open>_binaryToBase64\<close>, the loop over groups of three bytes of the source. Where the platform
  has \<open>btoa\<close> the source calls it on the same bytes instead; \<open>btoa\<close> is the platform's
  encoder of the same format (RFC 4648 with padding), and is not part of the repository.
\<close>

fun binaryToBase64 :: "8 word list \<Rightarrow> jsstring" where
  "binaryToBase64 [] = []"
| "binaryToBase64 [a] =
     (let bitmap = bitmap_of a 0 0
      in sextet bitmap 18 @ sextet bitmap 12 @ js ''='' @ js ''='')"
| "binaryToBase64 [a, b] =
     (let bitmap = bitmap_of a b 0
      in sextet bitmap 18 @ sextet bitmap 12 @ sextet bitmap 6 @ js ''='')"
| "binaryToBase64 (a # b # c # rest) =
     (let bitmap = bitmap_of a b c
      in sextet bitmap 18 @ sextet bitmap 12 @ sextet bitmap 6 @ sextet bitmap 0)
     @ binaryToBase64 rest"

definition normalizeAudioData :: "AudioDataType \<Rightarrow> fp_error + jsstring" where
  "normalizeAudioData d =
     (case d of
        StringData s \<Rightarrow> sanitizeBase64 s
      | ArrayBufferData bytes \<Rightarrow> Inr (binaryToBase64 bytes)
      | Uint8ArrayData bytes \<Rightarrow> Inr (binaryToBase64 bytes))"

text \<open>\<open>Math.round\<close>: the nearest integer, a half rounded up.\<close>

definition Math_round :: "rat \<Rightarrow> rat" where
  "Math_round x = of_int \<lfloor>x + 1 / 2\<rfloor>"

text \<open>
  \<open>_calculateDuration\<close>. Its \<open>try\<close> block has nothing that throws on a string, so the
  \<open>catch\<close> branch is not reached.
\<close>

definition durationMs_of :: "FrameProcessor \<Rightarrow> jsstring \<Rightarrow> rat" where
  "durationMs_of fp base64Data =
     (let sampleCount = estimatedBytes base64Data / fp_bytesPerSample fp
      in (sampleCount / fp_sampleRate fp) * 1000)"

definition calculateDuration :: "FrameProcessor \<Rightarrow> jsstring \<Rightarrow> rat" where
  "calculateDuration fp base64Data =
     (let durationMs = durationMs_of fp base64Data
      in if durationMs \<le> 0 \<or> durationMs > 1000 then fp_frameIntervalMs fp
         else Math_round durationMs)"

text \<open>
  The \<open>try\<close> block of \<open>parseChunk\<close>: \<open>Inl\<close> is a throw. \<open>now\<close> is \<open>Date.now()\<close>. The
  sequence number is read and incremented only when the frame is built.
\<close>

definition parseChunk_try ::
  "FrameProcessor \<Rightarrow> IAudioPlayPayload \<Rightarrow> int \<Rightarrow> fp_error + (IAudioFrame list \<times> FrameProcessor)" where
  "parseChunk_try fp payload now =
     (case normalizeAudioData (audioData payload) of
        Inl e \<Rightarrow> Inl e
      | Inr normalizedData \<Rightarrow>
          let estimatedDuration = calculateDuration fp normalizedData;
              frame = \<lparr>sequenceNumber = fp_sequenceNumber fp,
                       data = \<lparr>audioData = StringData normalizedData,
                               isFirst = Some (case isFirst payload of Some b \<Rightarrow> b | None \<Rightarrow> False),
                               isFinal = Some (case isFinal payload of Some b \<Rightarrow> b | None \<Rightarrow> False)\<rparr>,
                       duration = estimatedDuration,
                       timestamp = now\<rparr>
          in Inr ([frame], fp\<lparr>fp_sequenceNumber := fp_sequenceNumber fp + 1\<rparr>))"

text \<open>\<open>parseChunk\<close>: an invalid payload and a caught throw both give the empty array.\<close>

definition parseChunk ::
  "FrameProcessor \<Rightarrow> IAudioPlayPayload \<Rightarrow> int \<Rightarrow> IAudioFrame list \<times> FrameProcessor" where
  "parseChunk fp payload now =
     (if \<not> isValidPayload payload then ([], fp)
      else case parseChunk_try fp payload now of
             Inl e \<Rightarrow> ([], fp)
           | Inr r \<Rightarrow> r)"

definition reset :: "FrameProcessor \<Rightarrow> FrameProcessor" where
  "reset fp = fp\<lparr>fp_sequenceNumber := 0\<rparr>"

text \<open>
  A sequence of calls on one processor, with what each call returned: the frames of a
  \<open>parseChunk\<close>, nothing for a \<open>reset\<close>.
\<close>

datatype fp_call = ParseChunk IAudioPlayPayload int | Reset

fun fp_run :: "FrameProcessor \<Rightarrow> fp_call list \<Rightarrow> IAudioFrame list list \<times> FrameProcessor" where
  "fp_run fp [] = ([], fp)"
| "fp_run fp (ParseChunk payload now # calls) =
     (let (frames, fp1) = parseChunk fp payload now;
          (rest, fp2) = fp_run fp1 calls
      in (frames # rest, fp2))"
| "fp_run fp (Reset # calls) =
     (let (rest, fp2) = fp_run (reset fp) calls
      in ([] # rest, fp2))"

text \<open>
  The sequence numbers a run must hand out, by the specification: the next number goes to
  each successful frame, a failed call takes none, \<open>reset\<close> starts again at 0.
\<close>

fun expected_numbers :: "nat \<Rightarrow> (fp_call \<times> bool) list \<Rightarrow> nat list list" where
  "expected_numbers n [] = []"
| "expected_numbers n ((ParseChunk payload now, ok) # calls) =
     (if ok then [n] # expected_numbers (n + 1) calls else [] # expected_numbers n calls)"
| "expected_numbers n ((Reset, ok) # calls) = [] # expected_numbers 0 calls"

section \<open>RetryHandler\<close>

text \<open>\<open>IRetryConfig\<close>; \<open>maxRetries\<close> is a number of attempts, a natural number here.\<close>

record IRetryConfig =
  maxRetries :: nat
  initialDelayMs :: rat
  maxDelayMs :: rat
  backoffMultiplier :: rat
  useJitter :: bool

definition DEFAULT_RETRY_CONFIG :: IRetryConfig where
  "DEFAULT_RETRY_CONFIG =
     \<lparr>maxRetries = 3, initialDelayMs = 50, maxDelayMs = 1000, backoffMultiplier = 2,
      useJitter = True\<rparr>"

text \<open>
  \<open>_calculateDelay\<close>; \<open>rnd\<close> is the value of \<open>Math.random()\<close>, in \<open>[0, 1)\<close>, read only when
  jitter is on.
\<close>

definition calculateDelay :: "IRetryConfig \<Rightarrow> nat \<Rightarrow> rat \<Rightarrow> rat" where
  "calculateDelay cfg attempt rnd =
     (let delay = initialDelayMs cfg * backoffMultiplier cfg ^ attempt;
          delay = min delay (maxDelayMs cfg)
      in if useJitter cfg
         then let jitterFactor = 3 / 4 + rnd * (1 / 2)
              in Math_round (delay * jitterFactor)
         else delay)"

text \<open>
  What a call of \<open>execute\<close> did: the value returned or the error thrown (\<open>lastError\<close>, which
  starts as \<open>null\<close>), how often the operation was called, and the delays slept, in order.
\<close>

record ('e, 'a) execution =
  exec_outcome :: "'e option + 'a"
  exec_calls :: nat
  exec_sleeps :: "rat list"

text \<open>
  The loop of \<open>execute\<close>. The operation has effects, so it is given as the result of its
  \<open>i\<close>-th call (counted from 0): \<open>Inl\<close> an error thrown, \<open>Inr\<close> a value. \<open>random i\<close> is what
  \<open>Math.random()\<close> gives after the \<open>i\<close>-th call failed. The source wraps a thrown value that
  is not an \<open>Error\<close> into one; the model keeps the thrown value.
\<close>

function execute_loop ::
  "IRetryConfig \<Rightarrow> (nat \<Rightarrow> 'e + 'a) \<Rightarrow> (nat \<Rightarrow> rat) \<Rightarrow> nat \<Rightarrow> 'e option \<Rightarrow> rat list
     \<Rightarrow> ('e, 'a) execution" where
  "execute_loop cfg operation random attempt lastError slept =
     (if attempt \<le> maxRetries cfg then
        (case operation attempt of
           Inr v \<Rightarrow> \<lparr>exec_outcome = Inr v, exec_calls = attempt + 1, exec_sleeps = slept\<rparr>
         | Inl error \<Rightarrow>
             if attempt < maxRetries cfg
             then execute_loop cfg operation random (attempt + 1) (Some error)
                    (slept @ [calculateDelay cfg attempt (random attempt)])
             else execute_loop cfg operation random (attempt + 1) (Some error) slept)
      else \<lparr>exec_outcome = Inl lastError, exec_calls = attempt, exec_sleeps = slept\<rparr>)"
  by pat_completeness auto
termination
  by (relation "measure (\<lambda>(cfg, operation, random, attempt, lastError, slept).
        maxRetries cfg + 1 - attempt)") auto

declare execute_loop.simps [simp del]

definition execute ::
  "IRetryConfig \<Rightarrow> (nat \<Rightarrow> 'e + 'a) \<Rightarrow> (nat \<Rightarrow> rat) \<Rightarrow> ('e, 'a) execution" where
  "execute cfg operation random = execute_loop cfg operation random 0 None []"

text \<open>\<open>executeSafe\<close>: the value, or \<open>null\<close> when \<open>execute\<close> threw.\<close>

definition executeSafe :: "IRetryConfig \<Rightarrow> (nat \<Rightarrow> 'e + 'a) \<Rightarrow> (nat \<Rightarrow> rat) \<Rightarrow> 'a option" where
  "executeSafe cfg operation random =
     (case exec_outcome (execute cfg operation random) of
        Inr v \<Rightarrow> Some v
      | Inl e \<Rightarrow> None)"

text \<open>
  The delay the specification gives for retry \<open>k\<close> (counted from 1), before any jitter:
  \<open>min(maxDelayMs, initialDelayMs * backoffMultiplier^(k-1))\<close>.
\<close>

definition spec_delay :: "IRetryConfig \<Rightarrow> nat \<Rightarrow> rat" where
  "spec_delay cfg k = min (maxDelayMs cfg) (initialDelayMs cfg * backoffMultiplier cfg ^ (k - 1))"

text \<open>
  For the examples: an operation whose \<open>i\<close>-th call throws the error \<open>i\<close>, and a random
  source that always gives the same value.
\<close>

definition failing_operation :: "nat \<Rightarrow> nat + unit" where
  "failing_operation i = Inl i"

definition fixed_random :: "rat \<Rightarrow> nat \<Rightarrow> rat" where
  "fixed_random r i = r"

section \<open>AudioBufferManager\<close>

record IAudioBufferConfig =
  targetBufferMs :: rat
  minBufferMs :: rat
  maxBufferMs :: rat
  frameIntervalMs :: rat
  sampleRate :: "rat option"

text \<open>\<open>Partial<IAudioBufferConfig>\<close>: a field is \<open>None\<close> when the property is absent.\<close>

record PartialConfig =
  p_targetBufferMs :: "rat option"
  p_minBufferMs :: "rat option"
  p_maxBufferMs :: "rat option"
  p_frameIntervalMs :: "rat option"
  p_sampleRate :: "rat option"

text \<open>The object spread \<open>{ ...config, ...partial }\<close>.\<close>

definition spread :: "IAudioBufferConfig \<Rightarrow> PartialConfig \<Rightarrow> IAudioBufferConfig" where
  "spread c p =
     \<lparr>targetBufferMs = (case p_targetBufferMs p of Some v \<Rightarrow> v | None \<Rightarrow> targetBufferMs c),
      minBufferMs = (case p_minBufferMs p of Some v \<Rightarrow> v | None \<Rightarrow> minBufferMs c),
      maxBufferMs = (case p_maxBufferMs p of Some v \<Rightarrow> v | None \<Rightarrow> maxBufferMs c),
      frameIntervalMs = (case p_frameIntervalMs p of Some v \<Rightarrow> v | None \<Rightarrow> frameIntervalMs c),
      sampleRate = (case p_sampleRate p of Some v \<Rightarrow> Some v | None \<Rightarrow> sampleRate c)\<rparr>"

definition no_change :: PartialConfig where
  "no_change =
     \<lparr>p_targetBufferMs = None, p_minBufferMs = None, p_maxBufferMs = None,
      p_frameIntervalMs = None, p_sampleRate = None\<rparr>"

definition default_config :: IAudioBufferConfig where
  "default_config =
     \<lparr>targetBufferMs = 240, minBufferMs = 120, maxBufferMs = 480, frameIntervalMs = 20,
      sampleRate = Some 16000\<rparr>"

text \<open>
  The class \<open>QualityMonitor\<close> is not among the sources. The manager only calls it, so the
  calls are taken as given: \<open>'q\<close> is the monitor's state and the record holds its methods.
\<close>

record 'q IQualityMonitor =
  recordFrameArrival :: "'q \<Rightarrow> int \<Rightarrow> 'q"
  recordOverrun :: "'q \<Rightarrow> 'q"
  updateBufferLevel :: "'q \<Rightarrow> rat \<Rightarrow> 'q"
  getRecommendedAdjustment :: "'q \<Rightarrow> rat"

text \<open>
  The fields of the manager. \<open>abm_timerArmed\<close> says that \<open>_playbackTimer\<close> holds a timer.
  The encoding and the turn id of the source are left out: they reach only the output sink.
\<close>

record 'q AudioBufferManager =
  abm_buffer :: RingBuffer
  abm_config :: IAudioBufferConfig
  abm_frameProcessor :: "FrameProcessor option"
  abm_qualityMonitor :: "'q option"
  abm_timerArmed :: bool
  abm_isActive :: bool
  abm_lastPlaybackTime :: int
  abm_nextSequenceNumber :: nat

definition defaultRingBufferCapacity :: nat where
  "defaultRingBufferCapacity = 150"

text \<open>
  The constructor, with 16-bit samples (the initial encoding); \<open>monitor\<close> is the new
  \<open>QualityMonitor\<close>. A \<open>frameIntervalMs\<close> of 0 makes the estimate an infinity or \<open>NaN\<close> in
  the source; the model is for a non-zero interval.
\<close>

definition AudioBufferManager_new :: "PartialConfig \<Rightarrow> 'q \<Rightarrow> 'q AudioBufferManager" where
  "AudioBufferManager_new config monitor =
     (let cfg = spread default_config config;
          estimatedMaxFrames = nat \<lceil>(maxBufferMs cfg / frameIntervalMs cfg) * (3 / 2)\<rceil>
      in \<lparr>abm_buffer = RingBuffer_new (max estimatedMaxFrames defaultRingBufferCapacity),
          abm_config = cfg,
          abm_frameProcessor =
            Some (FrameProcessor_new (frameIntervalMs cfg)
                    (case sampleRate cfg of Some r \<Rightarrow> r | None \<Rightarrow> 16000) 2),
          abm_qualityMonitor = Some monitor,
          abm_timerArmed = False, abm_isActive = False,
          abm_lastPlaybackTime = 0, abm_nextSequenceNumber = 0\<rparr>)"

definition getCurrentBufferMs :: "'q AudioBufferManager \<Rightarrow> rat" where
  "getCurrentBufferMs m = getTotalDurationMs (abm_buffer m)"

text \<open>\<open>_handleOverrun\<close>; \<open>Math.floor\<close> of a positive quotient.\<close>

definition handleOverrun :: "'q IQualityMonitor \<Rightarrow> 'q AudioBufferManager \<Rightarrow> 'q AudioBufferManager" where
  "handleOverrun qm m =
     (let m1 = m\<lparr>abm_qualityMonitor := map_option (recordOverrun qm) (abm_qualityMonitor m)\<rparr>;
          excessMs = getCurrentBufferMs m1 - maxBufferMs (abm_config m1)
      in if excessMs > 100
         then let framesToDrop = nat \<lfloor>excessMs / frameIntervalMs (abm_config m1)\<rfloor>
              in m1\<lparr>abm_buffer := snd (dropOldest (abm_buffer m1) framesToDrop)\<rparr>
         else m1)"

text \<open>\<open>enqueueFrames\<close>; it returns at once when the processor or the monitor is \<open>null\<close>.\<close>

definition enqueueFrames ::
  "'q IQualityMonitor \<Rightarrow> 'q AudioBufferManager \<Rightarrow> IAudioPlayPayload \<Rightarrow> int \<Rightarrow> 'q AudioBufferManager" where
  "enqueueFrames qm m payload now =
     (case (abm_frameProcessor m, abm_qualityMonitor m) of
        (Some fp, Some q) \<Rightarrow>
          let (frames, fp1) = parseChunk fp payload now;
              (buf, q1) = fold (\<lambda>frame (buf, q). (snd (push buf frame),
                                   recordFrameArrival qm q (timestamp frame))) frames (abm_buffer m, q);
              m1 = m\<lparr>abm_buffer := buf, abm_frameProcessor := Some fp1\<rparr>;
              currentBufferMs = getCurrentBufferMs m1;
              m2 = m1\<lparr>abm_qualityMonitor := Some (updateBufferLevel qm q1 currentBufferMs)\<rparr>
          in if currentBufferMs > maxBufferMs (abm_config m2) then handleOverrun qm m2 else m2
      | _ \<Rightarrow> m)"

text \<open>
  \<open>startPlayback\<close>, up to the first check of the priming wait: the flag and the time are set;
  what follows (the poll every 50 ms, then the scheduling loop) runs later or at once, and
  never assigns \<open>_isActive\<close>, which only \<open>startPlayback\<close> and \<open>stopPlayback\<close> write.
  \<open>now\<close> is \<open>Date.now()\<close>.
\<close>

definition startPlayback :: "'q AudioBufferManager \<Rightarrow> int \<Rightarrow> 'q AudioBufferManager" where
  "startPlayback m now =
     (if abm_isActive m then m
      else m\<lparr>abm_isActive := True, abm_lastPlaybackTime := now\<rparr>)"

text \<open>Whether the first check of the priming wait already starts the scheduling loop.\<close>

definition primed :: "'q AudioBufferManager \<Rightarrow> bool" where
  "primed m =
     (let initialWaitMs = min (targetBufferMs (abm_config m)) 200
      in getCurrentBufferMs m \<ge> initialWaitMs \<or> \<not> abm_isActive m)"

definition stopPlayback :: "'q AudioBufferManager \<Rightarrow> 'q AudioBufferManager" where
  "stopPlayback m =
     m\<lparr>abm_isActive := False, abm_timerArmed := False,
       abm_buffer := clear (abm_buffer m), abm_nextSequenceNumber := 0,
       abm_frameProcessor := map_option reset (abm_frameProcessor m)\<rparr>"

definition isPlaying :: "'q AudioBufferManager \<Rightarrow> bool" where
  "isPlaying m = abm_isActive m"

definition updateConfig :: "'q AudioBufferManager \<Rightarrow> PartialConfig \<Rightarrow> 'q AudioBufferManager" where
  "updateConfig m config = m\<lparr>abm_config := spread (abm_config m) config\<rparr>"

text \<open>\<open>applyAdaptiveAdjustments\<close>; it returns at once when the monitor is \<open>null\<close>.\<close>

definition applyAdaptiveAdjustments ::
  "'q IQualityMonitor \<Rightarrow> 'q AudioBufferManager \<Rightarrow> 'q AudioBufferManager" where
  "applyAdaptiveAdjustments qm m =
     (case abm_qualityMonitor m of
        None \<Rightarrow> m
      | Some q \<Rightarrow>
          let adjustment = getRecommendedAdjustment qm q
          in if adjustment \<noteq> 0
             then
               let newTargetMs =
                     max (minBufferMs (abm_config m))
                       (min (maxBufferMs (abm_config m)) (targetBufferMs (abm_config m) + adjustment))
               in if newTargetMs \<noteq> targetBufferMs (abm_config m)
                  then updateConfig m (no_change\<lparr>p_targetBufferMs := Some newTargetMs\<rparr>)
                  else m
             else m)"

definition destroy :: "'q AudioBufferManager \<Rightarrow> 'q AudioBufferManager" where
  "destroy m =
     (let m1 = stopPlayback m
      in m1\<lparr>abm_buffer := clear (abm_buffer m1), abm_nextSequenceNumber := 0,
            abm_qualityMonitor := None, abm_frameProcessor := None\<rparr>)"

text \<open>\<open>_calculateNextInterval\<close>; \<open>currentTime\<close> is \<open>Date.now()\<close>.\<close>

definition calculateNextInterval :: "'q AudioBufferManager \<Rightarrow> int \<Rightarrow> rat" where
  "calculateNextInterval m currentTime =
     (let expectedTime = of_int (abm_lastPlaybackTime m) + frameIntervalMs (abm_config m);
          drift = of_int currentTime - expectedTime
      in max 1 (frameIntervalMs (abm_config m) - drift))"

text \<open>The ordering of the thresholds that the specification asks of a configuration.\<close>

definition config_ordered :: "IAudioBufferConfig \<Rightarrow> bool" where
  "config_ordered c \<longleftrightarrow> minBufferMs c \<le> targetBufferMs c \<and> targetBufferMs c \<le> maxBufferMs c"

text \<open>A monitor for the examples: no state, a fixed recommendation.\<close>

definition fixed_monitor :: "rat \<Rightarrow> unit IQualityMonitor" where
  "fixed_monitor adjustment =
     \<lparr>recordFrameArrival = (\<lambda>q t. q), recordOverrun = (\<lambda>q. q),
      updateBufferLevel = (\<lambda>q ms. q), getRecommendedAdjustment = (\<lambda>q. adjustment)\<rparr>"
section \<open>RingBuffer: the array is a queue\<close>


lemma mod_add_inj_le:
  fixes t k j c :: nat
  assumes "k \<le> j" "j < c" "(t + k) mod c = (t + j) mod c"
  shows "k = j"
proof -
  have "t + k \<le> t + j" using assms by simp
  then have "c dvd (t + j) - (t + k)"
    using assms(3) mod_eq_dvd_iff_nat [of "t + k" "t + j" c] by metis
  then have "c dvd j - k" by simp
  moreover have "j - k < c" using assms by simp
  ultimately have "j - k = 0" using nat_dvd_not_less by blast
  then show ?thesis using assms by simp
qed

lemma mod_add_inj:
  fixes t k j c :: nat
  assumes "k < c" "j < c" "(t + k) mod c = (t + j) mod c"
  shows "k = j"
proof (cases "k \<le> j")
  case True
  then show ?thesis using assms mod_add_inj_le by blast
next
  case False
  then have "j \<le> k" by simp
  then show ?thesis using assms mod_add_inj_le [of j k c t] by simp
qed

lemma total_loop_forEach:
  "total_loop s i n acc = acc + sum_list (map duration (forEach_loop s i n))"
  by (induction n arbitrary: i acc) (auto split: option.splits)

lemma forEach_loop_slots:
  "i < rb_capacity s \<Longrightarrow>
   forEach_loop s i n =
     concat (map (\<lambda>k. case rb_buffer s ! ((i + k) mod rb_capacity s) of Some f \<Rightarrow> [f] | None \<Rightarrow> []) [0..<n])"
proof (induction n arbitrary: i)
  case 0
  then show ?case by simp
next
  case (Suc n)
  have lt: "(i + 1) mod rb_capacity s < rb_capacity s" using Suc.prems by simp
  have e: "\<And>k. (Suc i mod rb_capacity s + k) mod rb_capacity s = Suc (i + k) mod rb_capacity s"
    by (simp add: mod_simps)
  have u: "[0..<Suc n] = 0 # map Suc [0..<n]"
    by (simp add: upt_conv_Cons map_Suc_upt del: upt_Suc)
  show ?case
    unfolding u using Suc.IH [OF lt] Suc.prems
    by (simp add: e o_def del: upt_Suc)
qed

lemma forEach_frames_slots:
  "rb_tail s < rb_capacity s \<Longrightarrow>
   forEach_frames s = concat (map (\<lambda>k. case rb_slot s k of Some f \<Rightarrow> [f] | None \<Rightarrow> []) [0..<rb_size s])"
  by (simp add: forEach_frames_def forEach_loop_slots rb_slot_def)

lemma inv_slots_Some:
  assumes "rb_inv s"
  shows "map (rb_slot s) [0..<rb_size s] = map Some (forEach_frames s)"
proof -
  have t: "rb_tail s < rb_capacity s" using assms by (simp add: rb_inv_def)
  have "\<And>n. n \<le> rb_size s \<Longrightarrow> map (rb_slot s) [0..<n] =
      map Some (concat (map (\<lambda>k. case rb_slot s k of Some f \<Rightarrow> [f] | None \<Rightarrow> []) [0..<n]))"
  proof -
    fix n show "n \<le> rb_size s \<Longrightarrow> map (rb_slot s) [0..<n] =
      map Some (concat (map (\<lambda>k. case rb_slot s k of Some f \<Rightarrow> [f] | None \<Rightarrow> []) [0..<n]))"
    proof (induction n)
      case 0 then show ?case by simp
    next
      case (Suc n)
      have "n < rb_capacity s" "\<not> rb_size s \<le> n" using Suc.prems assms by (auto simp: rb_inv_def)
      then have "rb_slot s n \<noteq> None" using assms by (simp add: rb_inv_def)
      then show ?case using Suc by auto
    qed
  qed
  then show ?thesis by (simp add: forEach_frames_slots [OF t])
qed

lemma inv_length_frames:
  assumes "rb_inv s"
  shows "length (forEach_frames s) = rb_size s"
proof -
  have "length (map Some (forEach_frames s)) = length (map (rb_slot s) [0..<rb_size s])"
    using inv_slots_Some [OF assms] by simp
  then show ?thesis by simp
qed

lemma frames_eqI:
  assumes "rb_inv s" "map (rb_slot s) [0..<rb_size s] = map Some q"
  shows "forEach_frames s = q"
proof -
  have "map Some (forEach_frames s) = map Some q"
    using inv_slots_Some [OF assms(1)] assms(2) by simp
  then show ?thesis by simp
qed

lemma holds_inv: "rb_holds s q \<Longrightarrow> rb_inv s"
  by (auto simp: rb_holds_def rb_window_def rb_inv_def)

lemma holds_frames:
  assumes "rb_holds s q"
  shows "forEach_frames s = q"
proof (rule frames_eqI)
  show "rb_inv s" using assms by (rule holds_inv)
  show "map (rb_slot s) [0..<rb_size s] = map Some q"
    using assms by (intro map_upt_eqI) (auto simp: rb_holds_def rb_window_def)
qed

lemma inv_holds:
  assumes "rb_inv s"
  shows "rb_holds s (forEach_frames s)"
proof -
  have m: "map (rb_slot s) [0..<rb_size s] = map Some (forEach_frames s)"
    using assms by (rule inv_slots_Some)
  have l: "length (forEach_frames s) = rb_size s"
    using assms by (rule inv_length_frames)
  have "rb_slot s k = Some (forEach_frames s ! k)" if "k < rb_size s" for k
  proof -
    have "map (rb_slot s) [0..<rb_size s] ! k = map Some (forEach_frames s) ! k"
      using m by simp
    then show ?thesis using that l by simp
  qed
  then show ?thesis
    using assms l by (auto simp: rb_holds_def rb_window_def rb_inv_def)
qed

lemma slot_update:
  fixes t k j c :: nat
  assumes "length b = c" "k < c" "j < c"
  shows "(b[(t + j) mod c := v]) ! ((t + k) mod c) = (if k = j then v else b ! ((t + k) mod c))"
proof (cases "k = j")
  case True
  then show ?thesis using assms by simp
next
  case False
  then have "(t + j) mod c \<noteq> (t + k) mod c"
    using assms mod_add_inj [of k c j t] by metis
  then show ?thesis using False by simp
qed

lemma holds_new: "0 < c \<Longrightarrow> rb_holds (RingBuffer_new c) []"
  by (simp add: rb_holds_def rb_window_def RingBuffer_new_def rb_slot_def)

lemma holds_clear: "rb_holds s q \<Longrightarrow> rb_holds (clear s) [] \<and> rb_capacity (clear s) = rb_capacity s"
  by (simp add: rb_holds_def rb_window_def clear_def rb_slot_def)

text \<open>One step of the read edge: the slot at the tail is cleared and the tail advances.\<close>

lemma window_advance:
  assumes "rb_window s q" "q \<noteq> []"
  shows "rb_window (s\<lparr>rb_buffer := (rb_buffer s)[rb_tail s := None],
                        rb_tail := (rb_tail s + 1) mod rb_capacity s\<rparr>) (tl q)"
proof -
  let ?c = "rb_capacity s" and ?t = "rb_tail s" and ?b = "rb_buffer s"
  have c: "0 < ?c" "length ?b = ?c" "?t < ?c" "length q \<le> ?c"
    using assms by (auto simp: rb_window_def)
  have old: "\<And>k. k < ?c \<Longrightarrow> ?b ! ((?t + k) mod ?c) = (if k < length q then Some (q ! k) else None)"
    using assms by (simp add: rb_window_def rb_slot_def)
  have t0: "?t = (?t + 0) mod ?c" using c by simp
  have new: "(?b[?t := None]) ! (((?t + 1) mod ?c + k) mod ?c) =
             (if k < length (tl q) then Some (tl q ! k) else None)" if k: "k < ?c" for k
  proof -
    have e: "((?t + 1) mod ?c + k) mod ?c = (?t + (k + 1) mod ?c) mod ?c"
      by (simp add: mod_simps)
    have "(?b[(?t + 0) mod ?c := None]) ! ((?t + (k + 1) mod ?c) mod ?c) =
          (if (k + 1) mod ?c = 0 then None else ?b ! ((?t + (k + 1) mod ?c) mod ?c))"
      using c by (intro slot_update) simp_all
    then have u: "(?b[?t := None]) ! (((?t + 1) mod ?c + k) mod ?c) =
          (if (k + 1) mod ?c = 0 then None else ?b ! ((?t + (k + 1) mod ?c) mod ?c))"
      using e t0 by simp
    show ?thesis
    proof (cases "k + 1 = ?c")
      case True
      then show ?thesis using u c assms(2) by (cases q) auto
    next
      case False
      then have lt: "k + 1 < ?c" using k by simp
      then have "(k + 1) mod ?c = k + 1" by simp
      then show ?thesis using u old [OF lt] by (cases q) (auto simp: nth_tl)
    qed
  qed
  show ?thesis
    using c new by (auto simp: rb_window_def rb_slot_def)
qed


lemma mod_window_shift:
  fixes t n m c :: nat
  assumes "n \<le> m"
  shows "((t + n) mod c + (m - n)) mod c = (t + m) mod c"
proof -
  have "((t + n) mod c + (m - n)) mod c = (t + n + (m - n)) mod c"
    by (rule mod_add_left_eq)
  also have "t + n + (m - n) = t + m" using assms by simp
  finally show ?thesis .
qed

lemma holds_shift:
  assumes "rb_holds s q"
  shows "rb_holds (snd (shift s)) (tl q) \<and> rb_capacity (snd (shift s)) = rb_capacity s \<and>
         fst (shift s) = (if q = [] then None else Some (hd q))"
proof (cases "q = []")
  case True
  then show ?thesis using assms by (simp add: shift_def rb_holds_def)
next
  case False
  have w: "rb_window s q" and sz: "rb_size s = length q"
    and h: "rb_head s = (rb_tail s + rb_size s) mod rb_capacity s"
    using assms by (auto simp: rb_holds_def)
  have c: "0 < rb_capacity s" "rb_tail s < rb_capacity s" using w by (auto simp: rb_window_def)
  have "rb_slot s 0 = Some (q ! 0)" using w False c by (simp add: rb_window_def)
  then have fr: "rb_buffer s ! rb_tail s = Some (hd q)"
    using c False by (simp add: rb_slot_def hd_conv_nth)
  have pos: "0 < rb_size s" using sz False by simp
  have "((rb_tail s + 1) mod rb_capacity s + (rb_size s - 1)) mod rb_capacity s
        = (rb_tail s + rb_size s) mod rb_capacity s"
    using pos mod_window_shift [of 1 "rb_size s" "rb_tail s" "rb_capacity s"] by simp
  then show ?thesis
    using window_advance [OF w False] False sz h fr
    by (simp add: shift_def rb_holds_def Let_def rb_window_def rb_slot_def)
qed

lemma drop_loop_window:
  "rb_window s q \<Longrightarrow> n \<le> length q \<Longrightarrow>
   rb_window (drop_loop s n) (drop n q) \<and>
   rb_capacity (drop_loop s n) = rb_capacity s \<and>
   rb_head (drop_loop s n) = rb_head s \<and>
   rb_size (drop_loop s n) = rb_size s \<and>
   rb_tail (drop_loop s n) = (rb_tail s + n) mod rb_capacity s"
proof (induction n arbitrary: s q)
  case 0
  then show ?case by (simp add: rb_window_def)
next
  case (Suc n)
  let ?s1 = "s\<lparr>rb_buffer := (rb_buffer s)[rb_tail s := None],
                  rb_tail := (rb_tail s + 1) mod rb_capacity s\<rparr>"
  have ne: "q \<noteq> []" using Suc.prems by auto
  have w1: "rb_window ?s1 (tl q)" using window_advance [OF Suc.prems(1) ne] .
  have n1: "n \<le> length (tl q)" using Suc.prems by simp
  have d: "drop n (tl q) = drop (Suc n) q" by (simp add: drop_Suc)
  show ?case using Suc.IH [OF w1 n1] by (simp add: d mod_simps)
qed

lemma window_size_update [simp]: "rb_window (s\<lparr>rb_size := x\<rparr>) q = rb_window s q"
  by (simp add: rb_window_def rb_slot_def)

lemma holds_dropOldest:
  assumes "rb_holds s q"
  shows "rb_holds (snd (dropOldest s n)) (drop n q) \<and>
         rb_capacity (snd (dropOldest s n)) = rb_capacity s \<and>
         fst (dropOldest s n) = min n (length q)"
proof -
  have w: "rb_window s q" and sz: "rb_size s = length q"
    and h: "rb_head s = (rb_tail s + rb_size s) mod rb_capacity s"
    using assms by (auto simp: rb_holds_def)
  define m where "m = min n (length q)"
  define s1 where "s1 = drop_loop s m"
  have m: "m \<le> length q" by (simp add: m_def)
  have d: "drop m q = drop n q" by (simp add: m_def min_def)
  have l: "drop_loop s m = s1" by (simp add: s1_def)
  have s1: "rb_window s1 (drop n q)" "rb_capacity s1 = rb_capacity s" "rb_head s1 = rb_head s"
    "rb_size s1 = rb_size s" "rb_tail s1 = (rb_tail s + m) mod rb_capacity s"
    using drop_loop_window [OF w m] unfolding l d by simp_all
  have a: "((rb_tail s + m) mod rb_capacity s + (length q - m)) mod rb_capacity s
        = (rb_tail s + length q) mod rb_capacity s"
    using m by (rule mod_window_shift)
  have r: "dropOldest s n = (m, s1\<lparr>rb_size := rb_size s1 - m\<rparr>)"
    by (simp add: dropOldest_def Let_def m_def s1_def sz)
  have len: "length (drop n q) = length q - m" using d [symmetric] by simp
  show ?thesis
    unfolding r using s1 a sz h len by (simp add: rb_holds_def m_def [symmetric])
qed


lemma slot_advance:
  fixes t k c :: nat
  assumes "length b = c" "t < c" "k < c"
  shows "(b[t := v]) ! (((t + 1) mod c + k) mod c) =
         (if k + 1 = c then v else b ! ((t + (k + 1)) mod c))"
proof -
  have e: "((t + 1) mod c + k) mod c = (t + (k + 1) mod c) mod c"
    by (simp add: mod_simps)
  have t0: "(t + 0) mod c = t" using assms by simp
  have "(b[(t + 0) mod c := v]) ! ((t + (k + 1) mod c) mod c) =
        (if (k + 1) mod c = 0 then v else b ! ((t + (k + 1) mod c) mod c))"
    using assms by (intro slot_update) simp_all
  then have u: "(b[t := v]) ! (((t + 1) mod c + k) mod c) =
        (if (k + 1) mod c = 0 then v else b ! ((t + (k + 1) mod c) mod c))"
    unfolding e t0 .
  show ?thesis
  proof (cases "k + 1 = c")
    case True
    then show ?thesis using u by simp
  next
    case False
    then have "(k + 1) mod c = k + 1" using assms by simp
    then show ?thesis using u False by simp
  qed
qed

lemma holds_push:
  assumes "rb_holds s q"
  shows "rb_holds (snd (push s f)) ((if length q \<ge> rb_capacity s then tl q else q) @ [f]) \<and>
         rb_capacity (snd (push s f)) = rb_capacity s \<and> fst (push s f) = True"
proof -
  let ?c = "rb_capacity s" and ?t = "rb_tail s" and ?b = "rb_buffer s"
  have w: "rb_window s q" and sz: "rb_size s = length q"
    and h: "rb_head s = (?t + length q) mod ?c"
    using assms by (auto simp: rb_holds_def)
  have c: "0 < ?c" "length ?b = ?c" "?t < ?c" "length q \<le> ?c"
    using w by (auto simp: rb_window_def)
  have old: "\<And>k. k < ?c \<Longrightarrow> ?b ! ((?t + k) mod ?c) = (if k < length q then Some (q ! k) else None)"
    using w by (simp add: rb_window_def rb_slot_def)
  show ?thesis
  proof (cases "length q \<ge> ?c")
    case False
    then have lt: "length q < ?c" by simp
    have new: "(?b[(?t + length q) mod ?c := Some f]) ! ((?t + k) mod ?c) =
               (if k < length (q @ [f]) then Some ((q @ [f]) ! k) else None)" if k: "k < ?c" for k
    proof -
      have "(?b[(?t + length q) mod ?c := Some f]) ! ((?t + k) mod ?c) =
            (if k = length q then Some f else ?b ! ((?t + k) mod ?c))"
        using c k lt by (intro slot_update) simp_all
      then show ?thesis using old [OF k] by (auto simp: nth_append)
    qed
    have hd: "((?t + length q) mod ?c + 1) mod ?c = (?t + (length q + 1)) mod ?c"
      by (simp add: mod_simps)
    show ?thesis
      using False lt c new hd sz h
      by (simp add: push_def Let_def rb_holds_def rb_window_def rb_slot_def)
  next
    case True
    then have full: "length q = ?c" using c by simp
    then have ne: "q \<noteq> []" using c by auto
    have hh: "rb_head s = ?t" using h full c by simp
    have new: "(?b[?t := Some f]) ! (((?t + 1) mod ?c + k) mod ?c) =
               (if k < length (tl q @ [f]) then Some ((tl q @ [f]) ! k) else None)" if k: "k < ?c" for k
    proof -
      have u: "(?b[?t := Some f]) ! (((?t + 1) mod ?c + k) mod ?c) =
            (if k + 1 = ?c then Some f else ?b ! ((?t + (k + 1)) mod ?c))"
        using c k by (intro slot_advance) simp_all
      show ?thesis
      proof (cases "k + 1 = ?c")
        case True
        then show ?thesis using u full ne by (simp add: nth_append)
      next
        case False
        then have lt: "k + 1 < ?c" using k by simp
        then show ?thesis using u old [OF lt] full ne False
          by (simp add: nth_append nth_tl)
      qed
    qed
    have hd: "((?t + 1) mod ?c + ?c) mod ?c = (?t + 1) mod ?c"
      by simp
    have len: "length q - Suc 0 + 1 = ?c" using full ne c by simp
    show ?thesis
      using True c new hd sz hh full len
      by (simp add: push_def Let_def rb_holds_def rb_window_def rb_slot_def)
  qed
qed


lemma prev_index:
  fixes t c :: nat
  assumes "t < c"
  shows "nat ((int t - 1 + int c) mod int c) < c \<and>
         (nat ((int t - 1 + int c) mod int c) + 1) mod c = t"
proof (cases "t = 0")
  case True
  have a: "int t - 1 + int c = int c - 1" using True by simp
  have "(int c - 1) mod int c = int c - 1"
    using assms by (intro mod_pos_pos_trivial) simp_all
  then have "nat ((int t - 1 + int c) mod int c) = c - 1"
    unfolding a by simp
  then show ?thesis using assms True by simp
next
  case False
  have "(int t - 1 + int c) mod int c = (int t - 1) mod int c" by simp
  also have "\<dots> = int t - 1" using assms False by simp
  finally have "nat ((int t - 1 + int c) mod int c) = t - 1" by simp
  then show ?thesis using assms False by simp
qed

lemma slot_retreat:
  fixes t p k c :: nat
  assumes "length b = c" "p < c" "(p + 1) mod c = t" "k < c"
  shows "(b[p := v]) ! ((p + k) mod c) = (if k = 0 then v else b ! ((t + (k - 1)) mod c))"
proof -
  have p0: "(p + 0) mod c = p" using assms by simp
  have "(b[(p + 0) mod c := v]) ! ((p + k) mod c) = (if k = 0 then v else b ! ((p + k) mod c))"
    using assms by (intro slot_update) simp_all
  then have u: "(b[p := v]) ! ((p + k) mod c) = (if k = 0 then v else b ! ((p + k) mod c))"
    unfolding p0 .
  have "(p + k) mod c = (t + (k - 1)) mod c" if "k \<noteq> 0"
  proof -
    have "(t + (k - 1)) mod c = ((p + 1) mod c + (k - 1)) mod c" using assms by simp
    also have "\<dots> = (p + 1 + (k - 1)) mod c" by (rule mod_add_left_eq)
    also have "p + 1 + (k - 1) = p + k" using that by simp
    finally show ?thesis by simp
  qed
  then show ?thesis using u by simp
qed

lemma holds_unshift:
  assumes "rb_holds s q"
  shows "rb_holds (unshift s f) (f # (if length q \<ge> rb_capacity s then butlast q else q)) \<and>
         rb_capacity (unshift s f) = rb_capacity s"
proof -
  let ?c = "rb_capacity s" and ?t = "rb_tail s" and ?b = "rb_buffer s"
  define p where "p = nat ((int ?t - 1 + int ?c) mod int ?c)"
  have w: "rb_window s q" and sz: "rb_size s = length q"
    and h: "rb_head s = (?t + length q) mod ?c"
    using assms by (auto simp: rb_holds_def)
  have c: "0 < ?c" "length ?b = ?c" "?t < ?c" "length q \<le> ?c"
    using w by (auto simp: rb_window_def)
  have old: "\<And>k. k < ?c \<Longrightarrow> ?b ! ((?t + k) mod ?c) = (if k < length q then Some (q ! k) else None)"
    using w by (simp add: rb_window_def rb_slot_def)
  have p: "p < ?c" "(p + 1) mod ?c = ?t"
    using prev_index [OF c(3)] by (simp_all add: p_def)
  have slot: "(?b[p := Some f]) ! ((p + k) mod ?c) =
        (if k = 0 then Some f else ?b ! ((?t + (k - 1)) mod ?c))" if "k < ?c" for k
    using c p that by (intro slot_retreat) simp_all
  show ?thesis
  proof (cases "length q \<ge> ?c")
    case False
    then have lt: "length q < ?c" by simp
    have new: "(?b[p := Some f]) ! ((p + k) mod ?c) =
               (if k < length (f # q) then Some ((f # q) ! k) else None)" if k: "k < ?c" for k
    proof (cases "k = 0")
      case True
      then show ?thesis using slot [OF k] by simp
    next
      case False
      then have "k - 1 < ?c" using k by simp
      then show ?thesis using slot [OF k] old [of "k - 1"] False by (cases k) auto
    qed
    have "(p + (length q + 1)) mod ?c = ((p + 1) mod ?c + length q) mod ?c"
      by (simp add: mod_simps)
    then have hd: "(p + (length q + 1)) mod ?c = (?t + length q) mod ?c"
      using p by simp
    have r: "unshift s f = s\<lparr>rb_tail := p, rb_buffer := ?b[p := Some f], rb_size := rb_size s + 1\<rparr>"
      using False sz by (simp add: unshift_def Let_def p_def)
    show ?thesis
      unfolding r using False c p new hd sz h
      by (simp add: rb_holds_def rb_window_def rb_slot_def)
  next
    case True
    then have full: "length q = ?c" using c by simp
    then have ne: "q \<noteq> []" using c by auto
    have hh: "rb_head s = ?t" using h full c by simp
    have new: "(?b[p := Some f]) ! ((p + k) mod ?c) =
               (if k < length (f # butlast q) then Some ((f # butlast q) ! k) else None)" if k: "k < ?c" for k
    proof (cases "k = 0")
      case True
      then show ?thesis using slot [OF k] by simp
    next
      case False
      then have k1: "k - 1 < ?c" "k - 1 < length q - 1" using k full by simp_all
      then show ?thesis using slot [OF k] old [of "k - 1"] False full k
        by (cases k) (auto simp: nth_butlast)
    qed
    have r: "unshift s f = s\<lparr>rb_head := p, rb_tail := p, rb_buffer := ?b[p := Some f],
                               rb_size := rb_size s - 1 + 1\<rparr>"
      using True sz hh by (simp add: unshift_def Let_def p_def)
    have len: "length q - Suc 0 + 1 = ?c" using full ne c by simp
    have hd: "(p + ?c) mod ?c = p" using p by simp
    show ?thesis
      unfolding r using True c p new hd sz full len
      by (simp add: rb_holds_def rb_window_def rb_slot_def)
  qed
qed

lemma holds_step:
  assumes "rb_holds s q"
  shows "rb_holds (rb_step s x) (store_step (rb_capacity s) q x) \<and>
         rb_capacity (rb_step s x) = rb_capacity s"
proof (cases x)
  case (Push f)
  then show ?thesis using holds_push [OF assms, of f] by simp
next
  case Shift
  then show ?thesis using holds_shift [OF assms] by simp
next
  case (DropOldest n)
  then show ?thesis using holds_dropOldest [OF assms, of n] by simp
next
  case (Unshift f)
  then show ?thesis using holds_unshift [OF assms, of f] by simp
next
  case Clear
  then show ?thesis using holds_clear [OF assms] by simp
qed

lemma holds_run:
  "rb_holds s q \<Longrightarrow>
   rb_holds (foldl rb_step s ops) (foldl (store_step (rb_capacity s)) q ops) \<and>
   rb_capacity (foldl rb_step s ops) = rb_capacity s"
proof (induction ops arbitrary: s q)
  case Nil
  then show ?case by simp
next
  case (Cons x ops)
  have st: "rb_holds (rb_step s x) (store_step (rb_capacity s) q x)"
    and cp: "rb_capacity (rb_step s x) = rb_capacity s"
    using holds_step [OF Cons.prems] by simp_all
  show ?case using Cons.IH [OF st] cp by simp
qed

lemma holds_rb_run:
  assumes "0 < c"
  shows "rb_holds (rb_run (RingBuffer_new c) ops) (store_run c ops) \<and>
         rb_capacity (rb_run (RingBuffer_new c) ops) = c"
  using holds_run [OF holds_new [OF assms], of ops]
  by (simp add: rb_run_def store_run_def RingBuffer_new_def)



lemma store_pushes:
  "0 < c \<Longrightarrow> foldl (store_step c) [] (map Push fs) = drop (length fs - c) fs"
proof (induction fs rule: rev_induct)
  case Nil
  then show ?case by simp
next
  case (snoc f fs)
  show ?case
  proof (cases "c \<le> length fs")
    case True
    then have "Suc (length fs - c) = Suc (length fs) - c" by simp
    then show ?thesis using snoc True
      by (simp add: drop_Suc [symmetric] tl_drop del: drop_Suc)
  next
    case False
    then show ?thesis using snoc by simp
  qed
qed

lemma occupied_append:
  "sum_list (map duration (List.map_filter id (xs @ ys))) =
   sum_list (map duration (List.map_filter id xs)) + sum_list (map duration (List.map_filter id ys))"
  by (simp add: List.map_filter_def)

lemma occupied_rotate:
  "sum_list (map duration (List.map_filter id (rotate n b))) =
   sum_list (map duration (List.map_filter id b))"
proof -
  define m where "m = n mod length b"
  have r: "rotate n b = drop m b @ take m b" by (simp add: m_def rotate_drop_take)
  have "sum_list (map duration (List.map_filter id (take m b @ drop m b))) =
        sum_list (map duration (List.map_filter id (drop m b @ take m b)))"
    unfolding occupied_append by simp
  then show ?thesis unfolding r by simp
qed

lemma window_rotate:
  assumes "rb_window s q"
  shows "rotate (rb_tail s) (rb_buffer s) =
         map Some q @ replicate (rb_capacity s - length q) None"
proof (rule nth_equalityI)
  have c: "length (rb_buffer s) = rb_capacity s" "length q \<le> rb_capacity s"
    using assms by (auto simp: rb_window_def)
  show "length (rotate (rb_tail s) (rb_buffer s)) =
        length (map Some q @ replicate (rb_capacity s - length q) None)"
    using c by simp
  fix i assume "i < length (rotate (rb_tail s) (rb_buffer s))"
  then have i: "i < rb_capacity s" using c by simp
  then have "rotate (rb_tail s) (rb_buffer s) ! i = rb_slot s i"
    using c by (simp add: nth_rotate rb_slot_def)
  also have "\<dots> = (if i < length q then Some (q ! i) else None)"
    using assms i by (simp add: rb_window_def)
  also have "\<dots> = (map Some q @ replicate (rb_capacity s - length q) None) ! i"
    using i c by (simp add: nth_append)
  finally show "rotate (rb_tail s) (rb_buffer s) ! i =
      (map Some q @ replicate (rb_capacity s - length q) None) ! i" .
qed

lemma map_filter_Some: "List.map_filter id (map Some q @ replicate n None) = q"
  by (simp add: List.map_filter_def o_def)

lemma holds_occupied:
  assumes "rb_holds s q"
  shows "sum_list (occupied_durations s) = sum_list (map duration q)"
proof -
  have w: "rb_window s q" using assms by (simp add: rb_holds_def)
  have "sum_list (occupied_durations s) =
        sum_list (map duration (List.map_filter id (rotate (rb_tail s) (rb_buffer s))))"
    by (simp add: occupied_durations_def occupied_rotate)
  then show ?thesis by (simp add: window_rotate [OF w] map_filter_Some)
qed

lemma total_is_frames:
  "getTotalDurationMs s = sum_list (map duration (forEach_frames s))"
  by (simp add: getTotalDurationMs_def forEach_frames_def total_loop_forEach)

text \<open>
  Claim C3. After any sequence of \<open>push\<close>, \<open>shift\<close>, \<open>dropOldest\<close> (and \<open>unshift\<close>,
  \<open>clear\<close>) on a new buffer of capacity at least one, \<open>getTotalDurationMs\<close> is the sum of
  the durations of the occupied slots of the array, which is the sum over the frames the
  store holds by the specification; it is 0 when the buffer is empty.
\<close>

theorem getTotalDurationMs_is_sum:
  assumes "0 < capacity" and "s = rb_run (RingBuffer_new capacity) ops"
  shows "getTotalDurationMs s = sum_list (occupied_durations s) \<and>
         getTotalDurationMs s = sum_list (map duration (store_run capacity ops)) \<and>
         (isEmpty s \<longrightarrow> getTotalDurationMs s = 0)"
proof -
  have h: "rb_holds s (store_run capacity ops)"
    using holds_rb_run [OF assms(1), of ops] assms(2) by simp
  have "forEach_frames s = store_run capacity ops" using h by (rule holds_frames)
  then have "getTotalDurationMs s = sum_list (map duration (store_run capacity ops))"
    by (simp add: total_is_frames)
  moreover have "isEmpty s \<longrightarrow> getTotalDurationMs s = 0"
    by (simp add: getTotalDurationMs_def isEmpty_def)
  ultimately show ?thesis
    using holds_occupied [OF h] by simp
qed

theorem getTotalDurationMs_is_sum_witness:
  "0 < (2::nat) \<and>
   getTotalDurationMs (rb_run (RingBuffer_new 2)
      [Push (example_frame 0 20), Push (example_frame 1 30), Push (example_frame 2 40), Shift,
       Push (example_frame 3 25), DropOldest 1]) = 25"
  using getTotalDurationMs_is_sum [of 2 "rb_run (RingBuffer_new 2)
      [Push (example_frame 0 20), Push (example_frame 1 30), Push (example_frame 2 40), Shift,
       Push (example_frame 3 25), DropOldest 1]" "[Push (example_frame 0 20), Push (example_frame 1 30), Push (example_frame 2 40), Shift,
       Push (example_frame 3 25), DropOldest 1]"]
  by (simp add: store_run_def example_frame_def)

text \<open>
  Claim C1. On a buffer reached by any sequence of calls from a new buffer of capacity at
  least one, \<open>push\<close> returns \<open>true\<close>, the buffer holds at most \<open>capacity\<close> frames
  afterwards, and its frames are the old ones followed by the new one, without the oldest
  (the frame \<open>shift\<close> would return) when the buffer was full. After pushes alone the buffer
  holds the last \<open>capacity\<close> frames pushed, in order.
\<close>

theorem push_evicts_oldest:
  assumes "0 < capacity" and "s = rb_run (RingBuffer_new capacity) ops"
  shows "fst (push s frame) = True \<and>
         rb_size (snd (push s frame)) \<le> capacity \<and>
         length (forEach_frames (snd (push s frame))) = rb_size (snd (push s frame)) \<and>
         forEach_frames (snd (push s frame)) =
           (if isFull s then tl (forEach_frames s) else forEach_frames s) @ [frame] \<and>
         (isFull s \<longrightarrow> fst (shift s) = Some (hd (forEach_frames s))) \<and>
         forEach_frames (rb_run (RingBuffer_new capacity) (map Push frames)) =
           drop (length frames - capacity) frames"
proof -
  define q where "q = store_run capacity ops"
  have h: "rb_holds s q" and c: "rb_capacity s = capacity"
    using holds_rb_run [OF assms(1), of ops] assms(2) by (simp_all add: q_def)
  have fr: "forEach_frames s = q" using h by (rule holds_frames)
  have sz: "rb_size s = length q" using h by (simp add: rb_holds_def)
  have p: "rb_holds (snd (push s frame)) ((if length q \<ge> capacity then tl q else q) @ [frame])"
    "rb_capacity (snd (push s frame)) = capacity" "fst (push s frame) = True"
    using holds_push [OF h, of frame] c by simp_all
  have i: "rb_inv (snd (push s frame))" using p(1) by (rule holds_inv)
  have 1: "rb_size (snd (push s frame)) \<le> capacity"
    using i p(2) by (simp add: rb_inv_def)
  have 2: "length (forEach_frames (snd (push s frame))) = rb_size (snd (push s frame))"
    using i by (rule inv_length_frames)
  have 3: "forEach_frames (snd (push s frame)) =
           (if isFull s then tl (forEach_frames s) else forEach_frames s) @ [frame]"
    using holds_frames [OF p(1)] fr sz c by (simp add: isFull_def)
  have 4: "isFull s \<longrightarrow> fst (shift s) = Some (hd (forEach_frames s))"
    using holds_shift [OF h] fr sz c assms(1) by (auto simp: isFull_def)
  have "rb_holds (rb_run (RingBuffer_new capacity) (map Push frames))
          (store_run capacity (map Push frames))"
    using holds_rb_run [OF assms(1)] by simp
  then have 5: "forEach_frames (rb_run (RingBuffer_new capacity) (map Push frames)) =
           drop (length frames - capacity) frames"
    using holds_frames store_pushes [OF assms(1)] by (simp add: store_run_def)
  show ?thesis using p(3) 1 2 3 4 5 by simp
qed

theorem push_evicts_oldest_witness:
  "0 < (2::nat) \<and>
   fst (push (rb_run (RingBuffer_new 2) [Push (example_frame 0 20), Push (example_frame 1 30)])
          (example_frame 2 40)) = True \<and>
   forEach_frames (snd (push (rb_run (RingBuffer_new 2)
       [Push (example_frame 0 20), Push (example_frame 1 30)]) (example_frame 2 40))) =
     [example_frame 1 30, example_frame 2 40]"
  using push_evicts_oldest [of 2 "rb_run (RingBuffer_new 2) [Push (example_frame 0 20), Push (example_frame 1 30)]"
      "[Push (example_frame 0 20), Push (example_frame 1 30)]" "example_frame 2 40" "[]"]
  by (simp add: rb_run_def RingBuffer_new_def push_def Let_def isFull_def forEach_frames_def
      eval_nat_numeral)

section \<open>FrameProcessor: encoding, validation, numbering\<close>


lemma estimatedBytes_append:
  "estimatedBytes (xs @ ys) = estimatedBytes xs + estimatedBytes ys"
  by (simp add: estimatedBytes_def paddingCount_def algebra_simps add_divide_distrib)

lemma pad_not_in_chars: "pad_char \<notin> set base64_chars"
  by (simp add: base64_chars_def js_def pad_char_def)

lemma length_base64_chars: "length base64_chars = 64"
  by (simp add: base64_chars_def js_def)

lemma sextet_index: "unat ((w :: 32 word) AND 63) < 64"
proof -
  have "w AND 63 \<le> 63" by (rule word_and_le1)
  then have "unat (w AND 63) \<le> unat (63 :: 32 word)" by (simp add: word_le_nat_alt)
  then show ?thesis by simp
qed

lemma sextet_single:
  "\<exists>c. sextet bitmap n = [c] \<and> c \<in> set base64_chars"
  using sextet_index [of "drop_bit n bitmap"]
  by (simp add: sextet_def charAt_def length_base64_chars)

lemma estimatedBytes_sextet: "estimatedBytes (sextet bitmap n) = 3 / 4"
proof -
  obtain c where c: "sextet bitmap n = [c]" "c \<in> set base64_chars"
    using sextet_single by blast
  then have "c \<noteq> pad_char" using pad_not_in_chars by auto
  then show ?thesis using c by (simp add: estimatedBytes_def paddingCount_def)
qed

lemma estimatedBytes_pad: "estimatedBytes (js ''='') = - (1 / 4)"
  by (simp add: estimatedBytes_def paddingCount_def js_def pad_char_def)

lemma estimatedBytes_binaryToBase64:
  "estimatedBytes (binaryToBase64 bytes) = of_nat (length bytes)"
  by (induction bytes rule: binaryToBase64.induct)
     (simp_all add: Let_def estimatedBytes_append estimatedBytes_sextet estimatedBytes_pad,
      simp add: estimatedBytes_def paddingCount_def)


text \<open>
  The test of the model is the regular expression: a string passes exactly when it is a run of
  class characters followed by at most two \<open>=\<close>.
\<close>

lemma pad_not_base64: "\<not> is_base64_char pad_char"
  by (simp add: is_base64_char_def pad_char_def)

lemma validBase64Regex_test_iff:
  "validBase64Regex_test s \<longleftrightarrow>
     (\<exists>body pad. s = body @ pad \<and> (\<forall>c \<in> set body. is_base64_char c) \<and>
        (pad = [] \<or> pad = [pad_char] \<or> pad = [pad_char, pad_char]))"
proof
  assume t: "validBase64Regex_test s"
  have "s = takeWhile is_base64_char s @ dropWhile is_base64_char s" by simp
  moreover have "\<forall>c \<in> set (takeWhile is_base64_char s). is_base64_char c"
    by (auto dest: set_takeWhileD)
  moreover have "dropWhile is_base64_char s = [] \<or> dropWhile is_base64_char s = [pad_char] \<or>
      dropWhile is_base64_char s = [pad_char, pad_char]"
    using t by (simp add: validBase64Regex_test_def)
  ultimately show "\<exists>body pad. s = body @ pad \<and> (\<forall>c \<in> set body. is_base64_char c) \<and>
        (pad = [] \<or> pad = [pad_char] \<or> pad = [pad_char, pad_char])"
    by blast
next
  assume "\<exists>body pad. s = body @ pad \<and> (\<forall>c \<in> set body. is_base64_char c) \<and>
        (pad = [] \<or> pad = [pad_char] \<or> pad = [pad_char, pad_char])"
  then obtain body pad where s: "s = body @ pad" and b: "\<forall>c \<in> set body. is_base64_char c"
    and p: "pad = [] \<or> pad = [pad_char] \<or> pad = [pad_char, pad_char]" by blast
  have "dropWhile is_base64_char s = dropWhile is_base64_char pad"
    using s b by (simp add: dropWhile_append2)
  also have "\<dots> = pad" using p pad_not_base64 by auto
  finally show "validBase64Regex_test s" using p by (simp add: validBase64Regex_test_def)
qed

lemma regex_chars:
  assumes "validBase64Regex_test s" "c \<in> set s"
  shows "is_base64_char c \<or> c = pad_char"
proof -
  have "set s = set (takeWhile is_base64_char s) \<union> set (dropWhile is_base64_char s)"
    by (metis set_append takeWhile_dropWhile_id)
  moreover have "\<And>x. x \<in> set (takeWhile is_base64_char s) \<Longrightarrow> is_base64_char x"
    by (rule set_takeWhileD [THEN conjunct2])
  moreover have "\<And>x. x \<in> set (dropWhile is_base64_char s) \<Longrightarrow> x = pad_char"
  proof -
    fix x assume x: "x \<in> set (dropWhile is_base64_char s)"
    have "dropWhile is_base64_char s = [] \<or> dropWhile is_base64_char s = [pad_char] \<or>
          dropWhile is_base64_char s = [pad_char, pad_char]"
      using assms(1) by (simp add: validBase64Regex_test_def)
    then show "x = pad_char" using x by fastforce
  qed
  ultimately show ?thesis using assms(2) by blast
qed

lemma sanitize_rejects:
  assumes "c \<in> set s" "\<not> is_whitespace c" "\<not> is_base64_char c" "c \<noteq> pad_char"
  shows "sanitizeBase64 s = Inl InvalidBase64Format"
proof -
  have "c \<in> set (filter (\<lambda>c. \<not> is_whitespace c) s)" using assms by simp
  then have "\<not> validBase64Regex_test (filter (\<lambda>c. \<not> is_whitespace c) s)"
    using regex_chars assms by blast
  moreover have "s \<noteq> []" using assms by auto
  ultimately show ?thesis by (simp add: sanitizeBase64_def)
qed

lemma parseChunk_cases:
  "parseChunk fp payload now = ([], fp) \<or>
   (\<exists>frame. parseChunk fp payload now = ([frame], fp\<lparr>fp_sequenceNumber := fp_sequenceNumber fp + 1\<rparr>) \<and>
      sequenceNumber frame = fp_sequenceNumber fp)"
  by (auto simp: parseChunk_def parseChunk_try_def Let_def split: sum.splits)

lemma parseChunk_invalid_chars:
  assumes "audioData payload = StringData s"
    "c \<in> set s" "\<not> is_whitespace c" "\<not> is_base64_char c" "c \<noteq> pad_char"
  shows "parseChunk fp payload now = ([], fp)"
  using sanitize_rejects [OF assms(2-5)] assms(1)
  by (simp add: parseChunk_def parseChunk_try_def normalizeAudioData_def)

lemma parseChunk_size:
  assumes "getByteSize (audioData payload) = 0 \<or>
           getByteSize (audioData payload) > maxReasonableChunkSizeBytes"
  shows "parseChunk fp payload now = ([], fp)"
  using assms by (auto simp: parseChunk_def isValidPayload_def Let_def)

lemma Math_round_small: "0 \<le> x \<Longrightarrow> x < 1 / 2 \<Longrightarrow> Math_round x = 0"
  by (simp add: Math_round_def floor_eq_iff)

lemma fp_run_numbers:
  "map (map sequenceNumber) (fst (fp_run fp calls)) =
     expected_numbers (fp_sequenceNumber fp)
       (zip calls (map (\<lambda>frames. frames \<noteq> []) (fst (fp_run fp calls))))"
proof (induction calls arbitrary: fp)
  case Nil
  then show ?case by simp
next
  case (Cons call calls)
  show ?case
  proof (cases call)
    case (ParseChunk payload now)
    from parseChunk_cases [of fp payload now] show ?thesis
    proof
      assume "parseChunk fp payload now = ([], fp)"
      then show ?thesis using ParseChunk Cons.IH [of fp]
        by (simp add: split_beta)
    next
      assume "\<exists>frame. parseChunk fp payload now =
          ([frame], fp\<lparr>fp_sequenceNumber := fp_sequenceNumber fp + 1\<rparr>) \<and>
          sequenceNumber frame = fp_sequenceNumber fp"
      then obtain frame where
        "parseChunk fp payload now = ([frame], fp\<lparr>fp_sequenceNumber := fp_sequenceNumber fp + 1\<rparr>)"
        "sequenceNumber frame = fp_sequenceNumber fp" by blast
      then show ?thesis
        using ParseChunk Cons.IH [of "fp\<lparr>fp_sequenceNumber := fp_sequenceNumber fp + 1\<rparr>"]
        by (simp add: split_beta)
    qed
  next
    case Reset
    then show ?thesis using Cons.IH [of "reset fp"]
      by (simp add: split_beta reset_def)
  qed
qed

lemma fp_run_no_reset:
  "Reset \<notin> set calls \<Longrightarrow>
   concat (map (map sequenceNumber) (fst (fp_run fp calls))) =
     [fp_sequenceNumber fp ..< fp_sequenceNumber fp + length (concat (fst (fp_run fp calls)))]"
proof (induction calls arbitrary: fp)
  case Nil
  then show ?case by simp
next
  case (Cons call calls)
  then obtain payload now where call: "call = ParseChunk payload now"
    by (cases call) auto
  have nr: "Reset \<notin> set calls" using Cons.prems by simp
  from parseChunk_cases [of fp payload now] show ?case
  proof
    assume "parseChunk fp payload now = ([], fp)"
    then show ?thesis using call Cons.IH [OF nr, of fp]
      by (simp add: split_beta)
  next
    assume "\<exists>frame. parseChunk fp payload now =
        ([frame], fp\<lparr>fp_sequenceNumber := fp_sequenceNumber fp + 1\<rparr>) \<and>
        sequenceNumber frame = fp_sequenceNumber fp"
    then obtain frame where
      "parseChunk fp payload now = ([frame], fp\<lparr>fp_sequenceNumber := fp_sequenceNumber fp + 1\<rparr>)"
      "sequenceNumber frame = fp_sequenceNumber fp" by blast
    then have r: "fst (fp_run fp (call # calls)) =
        [frame] # fst (fp_run (fp\<lparr>fp_sequenceNumber := fp_sequenceNumber fp + 1\<rparr>) calls)"
      and n: "sequenceNumber frame = fp_sequenceNumber fp"
      using call by (simp_all add: split_beta)
    define k where
      "k = length (concat (fst (fp_run (fp\<lparr>fp_sequenceNumber := fp_sequenceNumber fp + 1\<rparr>) calls)))"
    have ih: "concat (map (map sequenceNumber)
          (fst (fp_run (fp\<lparr>fp_sequenceNumber := fp_sequenceNumber fp + 1\<rparr>) calls))) =
        [Suc (fp_sequenceNumber fp) ..< Suc (fp_sequenceNumber fp) + k]"
      using Cons.IH [OF nr, of "fp\<lparr>fp_sequenceNumber := fp_sequenceNumber fp + 1\<rparr>"]
      by (simp add: k_def del: upt_Suc)
    have "[fp_sequenceNumber fp ..< fp_sequenceNumber fp + Suc k] =
          fp_sequenceNumber fp # [Suc (fp_sequenceNumber fp) ..< Suc (fp_sequenceNumber fp) + k]"
      by (simp add: upt_conv_Cons del: upt_Suc)
    then show ?thesis
      unfolding r using ih n by (simp add: k_def del: upt_Suc)
  qed
qed



lemmas fp_eval = parseChunk_def isValidPayload_def getByteSize_def estimatedBytes_def paddingCount_def
      js_def pad_char_def maxReasonableChunkSizeBytes_def parseChunk_try_def normalizeAudioData_def
      sanitizeBase64_def is_whitespace_def validBase64Regex_test_def is_base64_char_def Let_def
      calculateDuration_def durationMs_of_def FrameProcessor_new_def Math_round_small
      sextet_def charAt_def base64_chars_def bitmap_of_def

text \<open>
  What \<open>parseChunk\<close> does reject. It returns at most one frame. It returns no frame, and
  leaves the processor as it was, when the byte size estimated for the payload as given is 0
  or above 64 KiB, and when a text payload holds a character that is neither white space nor
  in the base64 alphabet nor \<open>=\<close>. A throw inside is caught: the result of the model is a
  plain value.
\<close>

lemma parseChunk_rejects:
  "length (fst (parseChunk fp payload now)) \<le> 1 \<and>
   (getByteSize (audioData payload) = 0 \<or>
    getByteSize (audioData payload) > 64 * 1024 \<or>
    (\<exists>s c. audioData payload = StringData s \<and> c \<in> set s \<and>
       \<not> is_whitespace c \<and> \<not> is_base64_char c \<and> c \<noteq> pad_char)
    \<longrightarrow> parseChunk fp payload now = ([], fp))"
proof -
  have "length (fst (parseChunk fp payload now)) \<le> 1"
    using parseChunk_cases [of fp payload now] by auto
  moreover have "parseChunk fp payload now = ([], fp)"
    if "getByteSize (audioData payload) = 0 \<or> getByteSize (audioData payload) > 64 * 1024"
    using that parseChunk_size [of payload fp now] by (simp add: maxReasonableChunkSizeBytes_def)
  moreover have "parseChunk fp payload now = ([], fp)"
    if "\<exists>s c. audioData payload = StringData s \<and> c \<in> set s \<and>
       \<not> is_whitespace c \<and> \<not> is_base64_char c \<and> c \<noteq> pad_char"
    using that parseChunk_invalid_chars by blast
  ultimately show ?thesis by blast
qed

text \<open>
  Claim C2 at the failing input. A text payload of one space decodes to no bytes, yet
  \<open>parseChunk\<close> returns a frame for it. The checks for empty data look at the text before
  white space is removed: the size estimate of the payload is 3/4, not 0, and the text is not
  the empty string. \<open>_sanitizeBase64\<close> then strips it to the empty string, whose size
  estimate is 0, and the frame carries the empty string with the frame interval as duration.
\<close>

theorem parseChunk_whitespace_only:
  "getByteSize (StringData (js '' '')) = 3 / 4 \<and>
   isValidPayload \<lparr>audioData = StringData (js '' ''), isFirst = None, isFinal = None\<rparr> \<and>
   sanitizeBase64 (js '' '') = Inr [] \<and>
   estimatedBytes [] = 0 \<and>
   parseChunk (FrameProcessor_new 20 16000 2)
     \<lparr>audioData = StringData (js '' ''), isFirst = None, isFinal = None\<rparr> now =
     ([\<lparr>sequenceNumber = 0,
        data = \<lparr>audioData = StringData [], isFirst = Some False, isFinal = Some False\<rparr>,
        duration = 20, timestamp = now\<rparr>],
      (FrameProcessor_new 20 16000 2)\<lparr>fp_sequenceNumber := 1\<rparr>)"
  by (simp add: parseChunk_def isValidPayload_def getByteSize_def estimatedBytes_def
      paddingCount_def js_def pad_char_def maxReasonableChunkSizeBytes_def parseChunk_try_def
      normalizeAudioData_def sanitizeBase64_def is_whitespace_def validBase64Regex_test_def
      Let_def calculateDuration_def durationMs_of_def FrameProcessor_new_def)

text \<open>
  Claim C7. For every byte buffer, the size estimated from its base64 text (length times 3/4
  minus the number of padding characters) is exactly the length of the buffer, hence within
  2 bytes of it; this is the size \<open>_getByteSize\<close> gives for the binary payload itself.
\<close>

theorem base64_size_roundtrip:
  "estimatedBytes (binaryToBase64 bytes) = of_nat (length bytes) \<and>
   \<bar>estimatedBytes (binaryToBase64 bytes) - of_nat (length bytes)\<bar> \<le> 2 \<and>
   getByteSize (StringData (binaryToBase64 bytes)) = getByteSize (Uint8ArrayData bytes) \<and>
   normalizeAudioData (Uint8ArrayData bytes) = Inr (binaryToBase64 bytes) \<and>
   normalizeAudioData (ArrayBufferData bytes) = Inr (binaryToBase64 bytes)"
  by (simp add: estimatedBytes_binaryToBase64 getByteSize_def normalizeAudioData_def)

text \<open>
  Claim C10. The check of \<open>_calculateDuration\<close> is on the unrounded value: a valid payload
  whose computed duration is positive and below half a millisecond gets a frame of duration 0,
  not the frame interval. A one-byte chunk at 2 bytes per sample and 16000 Hz is such a
  payload: its computed duration is 1/32 ms.
\<close>

theorem parseChunk_zero_duration:
  assumes "isValidPayload payload"
    and "normalizeAudioData (audioData payload) = Inr text"
    and "0 < durationMs_of fp text" and "durationMs_of fp text < 1 / 2"
  shows "map duration (fst (parseChunk fp payload now)) = [0]"
  using assms
  by (simp add: parseChunk_def parseChunk_try_def calculateDuration_def Let_def Math_round_small)

theorem parseChunk_zero_duration_witness:
  "isValidPayload \<lparr>audioData = Uint8ArrayData [0], isFirst = None, isFinal = None\<rparr> \<and>
   normalizeAudioData (Uint8ArrayData [0]) = Inr (js ''AA=='') \<and>
   durationMs_of (FrameProcessor_new 20 16000 2) (js ''AA=='') = 1 / 32 \<and>
   fp_frameIntervalMs (FrameProcessor_new 20 16000 2) = 20 \<and>
   map duration (fst (parseChunk (FrameProcessor_new 20 16000 2)
       \<lparr>audioData = Uint8ArrayData [0], isFirst = None, isFinal = None\<rparr> 0)) = [0]"
proof -
  have v: "isValidPayload \<lparr>audioData = Uint8ArrayData [0], isFirst = None, isFinal = None\<rparr>"
    by (simp add: isValidPayload_def getByteSize_def maxReasonableChunkSizeBytes_def)
  have n: "normalizeAudioData (audioData
      \<lparr>audioData = Uint8ArrayData [0], isFirst = None, isFinal = None\<rparr>) = Inr (js ''AA=='')"
    by (simp add: normalizeAudioData_def Let_def sextet_def charAt_def base64_chars_def
        bitmap_of_def js_def)
  have d: "durationMs_of (FrameProcessor_new 20 16000 2) (js ''AA=='') = 1 / 32"
    by (simp add: durationMs_of_def FrameProcessor_new_def estimatedBytes_def paddingCount_def
        js_def pad_char_def)
  have i: "fp_frameIntervalMs (FrameProcessor_new 20 16000 2) = 20"
    by (simp add: FrameProcessor_new_def)
  show ?thesis
    using v n d i parseChunk_zero_duration [OF v n, of "FrameProcessor_new 20 16000 2" 0]
    by simp
qed

text \<open>
  Claim C6. A new processor and a reset processor are at number 0. In any sequence of calls the
  numbers of the frames returned are the expected ones: each successful \<open>parseChunk\<close> gets
  the next number, a failed one takes none, \<open>reset\<close> starts again at 0. Without a \<open>reset\<close>
  in between, the numbers handed out are consecutive, starting at the processor's number.
\<close>

theorem sequence_numbers:
  "fp_sequenceNumber (FrameProcessor_new interval rate bytes) = 0 \<and>
   fp_sequenceNumber (reset fp) = 0 \<and>
   map (map sequenceNumber) (fst (fp_run fp calls)) =
     expected_numbers (fp_sequenceNumber fp)
       (zip calls (map (\<lambda>frames. frames \<noteq> []) (fst (fp_run fp calls)))) \<and>
   (Reset \<notin> set calls \<longrightarrow>
      concat (map (map sequenceNumber) (fst (fp_run fp calls))) =
        [fp_sequenceNumber fp ..< fp_sequenceNumber fp + length (concat (fst (fp_run fp calls)))])"
  using fp_run_numbers [of fp calls] fp_run_no_reset [of calls fp]
  by (simp add: FrameProcessor_new_def reset_def)

theorem sequence_numbers_witness:
  "Reset \<notin> set [ParseChunk \<lparr>audioData = Uint8ArrayData [0, 0], isFirst = None, isFinal = None\<rparr> 5,
       ParseChunk \<lparr>audioData = StringData (js ''AA!A''), isFirst = None, isFinal = None\<rparr> 6,
       ParseChunk \<lparr>audioData = StringData (js ''AAAA''), isFirst = None, isFinal = None\<rparr> 7] \<and>
   concat (map (map sequenceNumber) (fst (fp_run (FrameProcessor_new 20 16000 2)
      [ParseChunk \<lparr>audioData = Uint8ArrayData [0, 0], isFirst = None, isFinal = None\<rparr> 5,
       ParseChunk \<lparr>audioData = StringData (js ''AA!A''), isFirst = None, isFinal = None\<rparr> 6,
       ParseChunk \<lparr>audioData = StringData (js ''AAAA''), isFirst = None, isFinal = None\<rparr> 7]))) =
     [0, 1]"
  using sequence_numbers [of 20 16000 2 "FrameProcessor_new 20 16000 2"
      "[ParseChunk \<lparr>audioData = Uint8ArrayData [0, 0], isFirst = None, isFinal = None\<rparr> 5,
       ParseChunk \<lparr>audioData = StringData (js ''AA!A''), isFirst = None, isFinal = None\<rparr> 6,
       ParseChunk \<lparr>audioData = StringData (js ''AAAA''), isFirst = None, isFinal = None\<rparr> 7]"]
  by (simp add: fp_eval)

section \<open>RetryHandler: attempts and delays\<close>


lemma loop_success:
  "attempt \<le> maxRetries cfg \<Longrightarrow> operation attempt = Inr v \<Longrightarrow>
   execute_loop cfg operation random attempt lastError slept =
     \<lparr>exec_outcome = Inr v, exec_calls = attempt + 1, exec_sleeps = slept\<rparr>"
  by (subst execute_loop.simps) simp

lemma loop_retry:
  "attempt < maxRetries cfg \<Longrightarrow> operation attempt = Inl e \<Longrightarrow>
   execute_loop cfg operation random attempt lastError slept =
     execute_loop cfg operation random (attempt + 1) (Some e)
       (slept @ [calculateDelay cfg attempt (random attempt)])"
  by (subst execute_loop.simps) simp

lemma loop_last:
  "attempt = maxRetries cfg \<Longrightarrow> operation attempt = Inl e \<Longrightarrow>
   execute_loop cfg operation random attempt lastError slept =
     \<lparr>exec_outcome = Inl (Some e), exec_calls = attempt + 1, exec_sleeps = slept\<rparr>"
  by (subst execute_loop.simps, subst execute_loop.simps) simp

text \<open>What the loop does from attempt \<open>a\<close> on, by induction on the attempts left.\<close>

lemma loop_shape:
  "maxRetries cfg - attempt = n \<Longrightarrow> attempt \<le> maxRetries cfg \<Longrightarrow>
   (let r = execute_loop cfg operation random attempt lastError slept in
      attempt < exec_calls r \<and> exec_calls r \<le> maxRetries cfg + 1 \<and>
      exec_sleeps r = slept @ map (\<lambda>i. calculateDelay cfg i (random i)) [attempt ..< exec_calls r - 1] \<and>
      (\<forall>i. attempt \<le> i \<and> i < exec_calls r - 1 \<longrightarrow> (\<exists>e. operation i = Inl e)) \<and>
      (case operation (exec_calls r - 1) of
         Inr v \<Rightarrow> exec_outcome r = Inr v
       | Inl e \<Rightarrow> exec_outcome r = Inl (Some e) \<and> exec_calls r = maxRetries cfg + 1))"
proof (induction n arbitrary: attempt lastError slept)
  case 0
  then have eq: "attempt = maxRetries cfg" by simp
  show ?case
  proof (cases "operation attempt")
    case (Inr v)
    then show ?thesis using eq by (auto simp: loop_success)
  next
    case (Inl e)
    then show ?thesis using eq by (auto simp: loop_last)
  qed
next
  case (Suc n)
  then have lt: "attempt < maxRetries cfg" by simp
  show ?case
  proof (cases "operation attempt")
    case (Inr v)
    then show ?thesis using Suc.prems by (auto simp: loop_success)
  next
    case (Inl e)
    let ?r = "execute_loop cfg operation random (attempt + 1) (Some e)
                (slept @ [calculateDelay cfg attempt (random attempt)])"
    have s: "execute_loop cfg operation random attempt lastError slept = ?r"
      using lt Inl by (rule loop_retry)
    have n: "maxRetries cfg - (attempt + 1) = n" and a: "attempt + 1 \<le> maxRetries cfg"
      using Suc.prems lt by simp_all
    note ih = Suc.IH [OF n a, of "Some e" "slept @ [calculateDelay cfg attempt (random attempt)]",
        unfolded Let_def]
    have c: "attempt + 1 < exec_calls ?r" using ih by simp
    have u: "[attempt ..< exec_calls ?r - 1] = attempt # [attempt + 1 ..< exec_calls ?r - 1]"
      using c by (simp add: upt_conv_Cons)
    have f: "\<exists>e. operation i = Inl e" if "attempt \<le> i" "i < exec_calls ?r - 1" for i
    proof (cases "i = attempt")
      case True
      then show ?thesis using Inl by simp
    next
      case False
      then have "attempt + 1 \<le> i" using that by simp
      then show ?thesis using ih that by blast
    qed
    show ?thesis
      unfolding s Let_def using ih c u f by simp
  qed
qed

lemma execute_shape:
  "(let r = execute cfg operation random in
      0 < exec_calls r \<and> exec_calls r \<le> maxRetries cfg + 1 \<and>
      exec_sleeps r = map (\<lambda>i. calculateDelay cfg i (random i)) [0 ..< exec_calls r - 1] \<and>
      (\<forall>i. i < exec_calls r - 1 \<longrightarrow> (\<exists>e. operation i = Inl e)) \<and>
      (case operation (exec_calls r - 1) of
         Inr v \<Rightarrow> exec_outcome r = Inr v
       | Inl e \<Rightarrow> exec_outcome r = Inl (Some e) \<and> exec_calls r = maxRetries cfg + 1))"
  using loop_shape [of cfg 0 "maxRetries cfg" operation random None "[]"]
  by (simp add: execute_def)

lemma delay_no_jitter:
  "\<not> useJitter cfg \<Longrightarrow> calculateDelay cfg attempt rnd = spec_delay cfg (attempt + 1)"
  by (simp add: calculateDelay_def spec_delay_def Let_def min.commute)

lemma delay_jitter:
  "useJitter cfg \<Longrightarrow>
   calculateDelay cfg attempt rnd = Math_round (spec_delay cfg (attempt + 1) * (3 / 4 + rnd * (1 / 2)))"
  by (simp add: calculateDelay_def spec_delay_def Let_def min.commute)

lemma Math_round_near: "x - 1 / 2 \<le> Math_round x \<and> Math_round x \<le> x + 1 / 2"
proof -
  have "of_int \<lfloor>x + 1 / 2\<rfloor> \<le> x + 1 / 2" by (rule of_int_floor_le)
  moreover have "x + 1 / 2 < of_int \<lfloor>x + 1 / 2\<rfloor> + 1" by linarith
  ultimately show ?thesis by (simp add: Math_round_def)
qed

lemma Math_round_eq:
  "of_int n - 1 / 2 \<le> x \<Longrightarrow> x < of_int n + 1 / 2 \<Longrightarrow> Math_round x = of_int n"
  by (simp add: Math_round_def floor_eq_iff)

lemma delay_jitter_bounds:
  assumes "useJitter cfg" "0 \<le> rnd" "rnd < 1" "0 \<le> spec_delay cfg (attempt + 1)"
  shows "3 / 4 * spec_delay cfg (attempt + 1) - 1 / 2 \<le> calculateDelay cfg attempt rnd \<and>
         calculateDelay cfg attempt rnd \<le> 5 / 4 * spec_delay cfg (attempt + 1) + 1 / 2"
proof -
  let ?d = "spec_delay cfg (attempt + 1)"
  let ?x = "?d * (3 / 4 + rnd * (1 / 2))"
  have lo: "3 / 4 * ?d \<le> ?x"
  proof -
    have "?d * (3 / 4) \<le> ?d * (3 / 4 + rnd * (1 / 2))"
      using assms by (intro mult_left_mono) simp_all
    then show ?thesis by (simp add: mult.commute)
  qed
  have hi: "?x \<le> 5 / 4 * ?d"
  proof -
    have "?d * (3 / 4 + rnd * (1 / 2)) \<le> ?d * (5 / 4)"
      using assms by (intro mult_left_mono) simp_all
    then show ?thesis by (simp add: mult.commute)
  qed
  show ?thesis
    using Math_round_near [of ?x] lo hi delay_jitter [OF assms(1), of attempt rnd] by simp
qed



text \<open>
  Claim C9, as stated, fails by the rounding of the jittered delay: with an initial delay of
  3 ms and \<open>Math.random()\<close> giving 0.01, the delay before the first retry is
  \<open>Math.round(3 * 0.755) = 2\<close>, below 75\<open>%\<close> of 3.
\<close>

theorem retry_jitter_counterexample:
  "useJitter (DEFAULT_RETRY_CONFIG\<lparr>maxRetries := 1, initialDelayMs := 3\<rparr>) \<and>
   spec_delay (DEFAULT_RETRY_CONFIG\<lparr>maxRetries := 1, initialDelayMs := 3\<rparr>) 1 = 3 \<and>
   exec_sleeps (execute (DEFAULT_RETRY_CONFIG\<lparr>maxRetries := 1, initialDelayMs := 3\<rparr>)
       failing_operation (fixed_random (1 / 100))) = [2] \<and>
   \<not> (3 / 4 * spec_delay (DEFAULT_RETRY_CONFIG\<lparr>maxRetries := 1, initialDelayMs := 3\<rparr>) 1 \<le> 2)"
proof -
  have "Math_round (453 / 200) = of_int 2"
    by (rule Math_round_eq) simp_all
  then show ?thesis
    by (simp add: DEFAULT_RETRY_CONFIG_def spec_delay_def execute_def loop_retry loop_last
        failing_operation_def fixed_random_def calculateDelay_def Let_def)
qed

text \<open>
  Claim C9, amended. \<open>execute\<close> calls the operation at most \<open>maxRetries + 1\<close> times and
  sleeps once before each retry. The delay before retry \<open>k\<close> is
  \<open>min(maxDelayMs, initialDelayMs * backoffMultiplier^(k-1))\<close> without jitter; with jitter it
  is that value times a factor in \<open>[0.75, 1.25)\<close>, rounded to the nearest integer, hence within
  25\<open>%\<close> of it up to half a millisecond. When every attempt fails, \<open>execute\<close> throws the
  error of the last attempt and \<open>executeSafe\<close> returns \<open>null\<close>.
\<close>

theorem execute_retries:
  "(let r = execute cfg operation random in
      exec_calls r \<le> maxRetries cfg + 1 \<and>
      length (exec_sleeps r) = exec_calls r - 1 \<and>
      (\<forall>k. 1 \<le> k \<and> k < exec_calls r \<longrightarrow>
         exec_sleeps r ! (k - 1) =
           (if useJitter cfg
            then Math_round (spec_delay cfg k * (3 / 4 + random (k - 1) * (1 / 2)))
            else spec_delay cfg k) \<and>
         (useJitter cfg \<and> 0 \<le> random (k - 1) \<and> random (k - 1) < 1 \<and> 0 \<le> spec_delay cfg k \<longrightarrow>
            3 / 4 * spec_delay cfg k - 1 / 2 \<le> exec_sleeps r ! (k - 1) \<and>
            exec_sleeps r ! (k - 1) \<le> 5 / 4 * spec_delay cfg k + 1 / 2)) \<and>
      ((\<forall>i \<le> maxRetries cfg. \<exists>e. operation i = Inl e) \<longrightarrow>
         exec_calls r = maxRetries cfg + 1 \<and>
         (\<forall>e. operation (maxRetries cfg) = Inl e \<longrightarrow> exec_outcome r = Inl (Some e)) \<and>
         executeSafe cfg operation random = None))"
proof -
  define r where "r = execute cfg operation random"
  note sh = execute_shape [of cfg operation random, unfolded Let_def, folded r_def]
  have c: "0 < exec_calls r" "exec_calls r \<le> maxRetries cfg + 1" using sh by simp_all
  have sl: "exec_sleeps r = map (\<lambda>i. calculateDelay cfg i (random i)) [0 ..< exec_calls r - 1]"
    using sh by simp
  have len: "length (exec_sleeps r) = exec_calls r - 1" using sl by simp
  have nth: "exec_sleeps r ! (k - 1) = calculateDelay cfg (k - 1) (random (k - 1))"
    if "1 \<le> k" "k < exec_calls r" for k
  proof -
    have "k - 1 < exec_calls r - 1" using that by simp
    then have "[0 ..< exec_calls r - 1] ! (k - 1) = k - 1" by simp
    then show ?thesis using that sl by simp
  qed
  have d1: "exec_sleeps r ! (k - 1) =
           (if useJitter cfg
            then Math_round (spec_delay cfg k * (3 / 4 + random (k - 1) * (1 / 2)))
            else spec_delay cfg k)" if "1 \<le> k" "k < exec_calls r" for k
    using nth [OF that] that delay_jitter [of cfg "k - 1" "random (k - 1)"]
      delay_no_jitter [of cfg "k - 1" "random (k - 1)"] by simp
  have d2: "3 / 4 * spec_delay cfg k - 1 / 2 \<le> exec_sleeps r ! (k - 1) \<and>
            exec_sleeps r ! (k - 1) \<le> 5 / 4 * spec_delay cfg k + 1 / 2"
    if "1 \<le> k" "k < exec_calls r" "useJitter cfg" "0 \<le> random (k - 1)" "random (k - 1) < 1"
      "0 \<le> spec_delay cfg k" for k
    using nth [OF that(1,2)] that delay_jitter_bounds [of cfg "random (k - 1)" "k - 1"] by simp
  have fail: "exec_calls r = maxRetries cfg + 1 \<and>
         (\<forall>e. operation (maxRetries cfg) = Inl e \<longrightarrow> exec_outcome r = Inl (Some e)) \<and>
         executeSafe cfg operation random = None"
    if all: "\<forall>i \<le> maxRetries cfg. \<exists>e. operation i = Inl e"
  proof -
    have "exec_calls r - 1 \<le> maxRetries cfg" using c by simp
    then obtain e where e: "operation (exec_calls r - 1) = Inl e" using all by blast
    then have o: "exec_outcome r = Inl (Some e)" "exec_calls r = maxRetries cfg + 1"
      using sh by simp_all
    then have "operation (maxRetries cfg) = Inl e" using e by simp
    then show ?thesis using o by (simp add: executeSafe_def r_def [symmetric])
  qed
  show ?thesis
    unfolding Let_def r_def [symmetric] using c len d1 d2 fail by blast
qed

theorem execute_retries_witness:
  "failing_operation 0 = Inl 0 \<and> failing_operation 3 = Inl 3 \<and>
   useJitter DEFAULT_RETRY_CONFIG \<and> 0 \<le> fixed_random (1 / 2) 0 \<and> fixed_random (1 / 2) 0 < 1 \<and>
   0 \<le> spec_delay DEFAULT_RETRY_CONFIG 1 \<and>
   exec_calls (execute DEFAULT_RETRY_CONFIG failing_operation (fixed_random (1 / 2))) = 4 \<and>
   exec_outcome (execute DEFAULT_RETRY_CONFIG failing_operation (fixed_random (1 / 2))) = Inl (Some 3) \<and>
   executeSafe DEFAULT_RETRY_CONFIG failing_operation (fixed_random (1 / 2)) = None \<and>
   75 / 2 - 1 / 2 \<le> exec_sleeps (execute DEFAULT_RETRY_CONFIG failing_operation (fixed_random (1 / 2))) ! 0 \<and>
   exec_sleeps (execute DEFAULT_RETRY_CONFIG failing_operation (fixed_random (1 / 2))) ! 0 \<le> 125 / 2 + 1 / 2"
proof -
  have h: "\<forall>i \<le> maxRetries DEFAULT_RETRY_CONFIG. \<exists>e. failing_operation i = Inl e"
    by (simp add: failing_operation_def)
  have j: "useJitter DEFAULT_RETRY_CONFIG" "0 \<le> fixed_random (1 / 2) 0" "fixed_random (1 / 2) 0 < 1"
    by (simp_all add: DEFAULT_RETRY_CONFIG_def fixed_random_def)
  have d: "spec_delay DEFAULT_RETRY_CONFIG 1 = 50"
    by (simp add: DEFAULT_RETRY_CONFIG_def spec_delay_def)
  note t = execute_retries [of DEFAULT_RETRY_CONFIG failing_operation "fixed_random (1 / 2)",
      unfolded Let_def]
  have c: "exec_calls (execute DEFAULT_RETRY_CONFIG failing_operation (fixed_random (1 / 2))) = 4"
    and o: "exec_outcome (execute DEFAULT_RETRY_CONFIG failing_operation (fixed_random (1 / 2))) = Inl (Some 3)"
    and s: "executeSafe DEFAULT_RETRY_CONFIG failing_operation (fixed_random (1 / 2)) = None"
    using t h by (simp_all add: DEFAULT_RETRY_CONFIG_def failing_operation_def)
  have "3 / 4 * spec_delay DEFAULT_RETRY_CONFIG 1 - 1 / 2
          \<le> exec_sleeps (execute DEFAULT_RETRY_CONFIG failing_operation (fixed_random (1 / 2))) ! (1 - 1) \<and>
        exec_sleeps (execute DEFAULT_RETRY_CONFIG failing_operation (fixed_random (1 / 2))) ! (1 - 1)
          \<le> 5 / 4 * spec_delay DEFAULT_RETRY_CONFIG 1 + 1 / 2"
    using t [THEN conjunct2, THEN conjunct2, THEN conjunct1, rule_format, of 1] c j d by simp
  then show ?thesis using j d c o s by (simp add: failing_operation_def)
qed

section \<open>AudioBufferManager: configuration, scheduling, destroy\<close>



text \<open>
  Claim C8. The next interval is \<open>max(1, frameIntervalMs - drift)\<close>, where the drift is the
  current time minus the expected time, and the expected time is the last playback time plus
  \<open>frameIntervalMs\<close>; it is never below 1 ms.
\<close>

theorem calculateNextInterval_drift:
  "calculateNextInterval m currentTime =
     max 1 (frameIntervalMs (abm_config m) -
            (of_int currentTime - (of_int (abm_lastPlaybackTime m) + frameIntervalMs (abm_config m)))) \<and>
   calculateNextInterval m currentTime \<ge> 1 \<and>
   calculateNextInterval m currentTime =
     max 1 (2 * frameIntervalMs (abm_config m) - of_int (currentTime - abm_lastPlaybackTime m))"
  by (simp add: calculateNextInterval_def Let_def algebra_simps)

text \<open>
  Claim C4, as stated, fails: \<open>updateConfig\<close> only merges. On a new manager with the default
  thresholds 120, 240, 480, \<open>updateConfig({ minBufferMs: 500 })\<close> leaves the minimum above
  the target and the maximum.
\<close>

theorem updateConfig_counterexample:
  "config_ordered (abm_config (AudioBufferManager_new no_change ())) \<and>
   \<not> config_ordered (abm_config (updateConfig (AudioBufferManager_new no_change ())
         (no_change\<lparr>p_minBufferMs := Some 500\<rparr>)))"
  by (simp add: config_ordered_def AudioBufferManager_new_def updateConfig_def spread_def
      no_change_def default_config_def Let_def)

text \<open>
  Claim C4, amended. \<open>updateConfig\<close> replaces the fields given and keeps the others, with no
  clamping: the ordering holds after it exactly when the merged values are ordered.
  \<open>applyAdaptiveAdjustments\<close> changes nothing but the target: with a monitor and a non-zero
  recommendation the target becomes
  \<open>max(minBufferMs, min(maxBufferMs, targetBufferMs + adjustment))\<close>, otherwise it stays. So
  it preserves the ordering, and a target it changes lies between the minimum and the maximum
  when the minimum is at most the maximum.
\<close>

theorem config_ordering:
  "abm_config (updateConfig m config) = spread (abm_config m) config \<and>
   targetBufferMs (abm_config (updateConfig m config)) =
     (case p_targetBufferMs config of Some v \<Rightarrow> v | None \<Rightarrow> targetBufferMs (abm_config m)) \<and>
   minBufferMs (abm_config (updateConfig m config)) =
     (case p_minBufferMs config of Some v \<Rightarrow> v | None \<Rightarrow> minBufferMs (abm_config m)) \<and>
   maxBufferMs (abm_config (updateConfig m config)) =
     (case p_maxBufferMs config of Some v \<Rightarrow> v | None \<Rightarrow> maxBufferMs (abm_config m)) \<and>
   (config_ordered (abm_config (updateConfig m config)) \<longleftrightarrow>
      config_ordered (spread (abm_config m) config)) \<and>
   abm_config (applyAdaptiveAdjustments qm m) =
     (abm_config m)\<lparr>targetBufferMs :=
        (case abm_qualityMonitor m of
           None \<Rightarrow> targetBufferMs (abm_config m)
         | Some q \<Rightarrow>
             if getRecommendedAdjustment qm q = 0 then targetBufferMs (abm_config m)
             else max (minBufferMs (abm_config m))
                    (min (maxBufferMs (abm_config m))
                       (targetBufferMs (abm_config m) + getRecommendedAdjustment qm q)))\<rparr> \<and>
   applyAdaptiveAdjustments qm m =
     m\<lparr>abm_config := abm_config (applyAdaptiveAdjustments qm m)\<rparr> \<and>
   minBufferMs (abm_config (applyAdaptiveAdjustments qm m)) = minBufferMs (abm_config m) \<and>
   maxBufferMs (abm_config (applyAdaptiveAdjustments qm m)) = maxBufferMs (abm_config m) \<and>
   (config_ordered (abm_config m) \<longrightarrow>
      config_ordered (abm_config (applyAdaptiveAdjustments qm m))) \<and>
   (minBufferMs (abm_config m) \<le> maxBufferMs (abm_config m) \<and>
    targetBufferMs (abm_config (applyAdaptiveAdjustments qm m)) \<noteq> targetBufferMs (abm_config m) \<longrightarrow>
      config_ordered (abm_config (applyAdaptiveAdjustments qm m)))"
proof -
  have u: "abm_config (updateConfig m config) = spread (abm_config m) config"
    by (simp add: updateConfig_def)
  have f: "targetBufferMs (spread (abm_config m) config) =
       (case p_targetBufferMs config of Some v \<Rightarrow> v | None \<Rightarrow> targetBufferMs (abm_config m))"
    "minBufferMs (spread (abm_config m) config) =
       (case p_minBufferMs config of Some v \<Rightarrow> v | None \<Rightarrow> minBufferMs (abm_config m))"
    "maxBufferMs (spread (abm_config m) config) =
       (case p_maxBufferMs config of Some v \<Rightarrow> v | None \<Rightarrow> maxBufferMs (abm_config m))"
    by (simp_all add: spread_def)
  have a: "abm_config (applyAdaptiveAdjustments qm m) =
     (abm_config m)\<lparr>targetBufferMs :=
        (case abm_qualityMonitor m of
           None \<Rightarrow> targetBufferMs (abm_config m)
         | Some q \<Rightarrow>
             if getRecommendedAdjustment qm q = 0 then targetBufferMs (abm_config m)
             else max (minBufferMs (abm_config m))
                    (min (maxBufferMs (abm_config m))
                       (targetBufferMs (abm_config m) + getRecommendedAdjustment qm q)))\<rparr>"
    by (cases "abm_config m")
       (simp add: applyAdaptiveAdjustments_def updateConfig_def spread_def no_change_def Let_def
          split: option.splits)
  have s: "applyAdaptiveAdjustments qm m =
     m\<lparr>abm_config := abm_config (applyAdaptiveAdjustments qm m)\<rparr>"
    by (simp add: applyAdaptiveAdjustments_def updateConfig_def Let_def split: option.splits)
  have r: "minBufferMs (abm_config (applyAdaptiveAdjustments qm m)) = minBufferMs (abm_config m)"
    "maxBufferMs (abm_config (applyAdaptiveAdjustments qm m)) = maxBufferMs (abm_config m)"
    "config_ordered (abm_config m) \<longrightarrow>
      config_ordered (abm_config (applyAdaptiveAdjustments qm m))"
    "minBufferMs (abm_config m) \<le> maxBufferMs (abm_config m) \<and>
    targetBufferMs (abm_config (applyAdaptiveAdjustments qm m)) \<noteq> targetBufferMs (abm_config m) \<longrightarrow>
      config_ordered (abm_config (applyAdaptiveAdjustments qm m))"
    unfolding a by (auto simp: config_ordered_def split: option.splits)
  show ?thesis
    using u f a s r by (simp only: simp_thms)
qed

theorem config_ordering_witness:
  "config_ordered (abm_config (AudioBufferManager_new no_change ())) \<and>
   config_ordered (abm_config (applyAdaptiveAdjustments (fixed_monitor 500)
      (AudioBufferManager_new no_change ()))) \<and>
   targetBufferMs (abm_config (applyAdaptiveAdjustments (fixed_monitor 500)
      (AudioBufferManager_new no_change ()))) = 480"
  using config_ordering [of "AudioBufferManager_new no_change ()" no_change "fixed_monitor 500"]
  by (simp add: config_ordered_def AudioBufferManager_new_def updateConfig_def spread_def
      no_change_def default_config_def Let_def applyAdaptiveAdjustments_def fixed_monitor_def)

text \<open>
  Claim C5 at the failing input. After \<open>destroy\<close> the manager is not playing, and
  \<open>enqueueFrames\<close> and \<open>applyAdaptiveAdjustments\<close> return at once; but \<open>startPlayback\<close> has
  no such guard and makes \<open>isPlaying\<close> true again, and \<open>updateConfig\<close> still merges.
\<close>

theorem startPlayback_after_destroy:
  "\<not> isPlaying (destroy m) \<and>
   isPlaying (startPlayback (destroy m) now) \<and>
   enqueueFrames qm (destroy m) payload t = destroy m \<and>
   applyAdaptiveAdjustments qm (destroy m) = destroy m \<and>
   abm_config (updateConfig (destroy m) config) = spread (abm_config m) config"
  by (simp add: isPlaying_def startPlayback_def destroy_def stopPlayback_def enqueueFrames_def
      applyAdaptiveAdjustments_def updateConfig_def Let_def)

end
